theory Spec2Isabelle
  imports Main "HOL-Library.Word"
begin

unbundle bit_operations_syntax

section \<open>The allocator of heap.c, on a 64-bit target\<close>

text \<open>
  The model fixes the target the test program stress.c runs on: \<open>size_t\<close>,
  \<open>uintptr_t\<close> and pointers are 64 bits wide, so \<open>sizeof( BlockLink_t )\<close> is 16 and
  the allocation flag is bit 63.  Arithmetic on sizes and addresses wraps modulo \<open>2^64\<close>,
  as the unsigned arithmetic of C does.

  Memory is a function from byte addresses to 64-bit cells.  The field
  \<open>pxNextFreeBlock\<close> of the header at address \<open>p\<close> is the cell at \<open>p\<close>, the field
  \<open>xBlockSize\<close> the cell at \<open>p + 8\<close>.  This is exact as long as every address the
  allocator uses is a multiple of 8, which \<open>prvHeapInit\<close> establishes by aligning the
  start of the arena and which the rounding of every block size keeps.  The two objects
  the allocator addresses, the array \<open>ucHeap\<close> and the list head \<open>xStart\<close>, live at
  addresses given by a \<open>layout\<close>; the other static variables are fields of the state.
\<close>

type_synonym size_t = "64 word"
type_synonym addr = "64 word"

definition NULL :: addr where
  "NULL = 0"

definition configTOTAL_HEAP_SIZE :: size_t where
  "configTOTAL_HEAP_SIZE = 40960"

definition portBYTE_ALIGNMENT :: size_t where
  "portBYTE_ALIGNMENT = 8"

definition portBYTE_ALIGNMENT_MASK :: size_t where
  "portBYTE_ALIGNMENT_MASK = portBYTE_ALIGNMENT - 1"

definition sizeof_BlockLink_t :: size_t where
  "sizeof_BlockLink_t = 16"

definition xHeapStructSize :: size_t where
  "xHeapStructSize = (sizeof_BlockLink_t + portBYTE_ALIGNMENT_MASK) AND NOT portBYTE_ALIGNMENT_MASK"

definition heapMINIMUM_BLOCK_SIZE :: size_t where
  "heapMINIMUM_BLOCK_SIZE = push_bit 1 xHeapStructSize"

definition heapBLOCK_ALLOCATED_BITMASK :: size_t where
  "heapBLOCK_ALLOCATED_BITMASK = push_bit 63 1"

record layout =
  ucHeap :: addr
  xStart :: addr

record heap =
  mem :: "addr \<Rightarrow> 64 word"
  pxEnd :: addr
  xFreeBytesRemaining :: size_t
  xMinimumEverFreeBytesRemaining :: size_t
  xNumberOfSuccessfulAllocations :: size_t
  xNumberOfSuccessfulFrees :: size_t

text \<open>Reading and writing the two fields of the \<open>BlockLink_t\<close> at an address.\<close>

definition pxNextFreeBlock :: "heap \<Rightarrow> addr \<Rightarrow> addr" where
  "pxNextFreeBlock s p = mem s p"

definition xBlockSize :: "heap \<Rightarrow> addr \<Rightarrow> size_t" where
  "xBlockSize s p = mem s (p + 8)"

definition set_pxNextFreeBlock :: "addr \<Rightarrow> addr \<Rightarrow> heap \<Rightarrow> heap" where
  "set_pxNextFreeBlock p v s = s\<lparr>mem := (mem s)(p := v)\<rparr>"

definition set_xBlockSize :: "addr \<Rightarrow> size_t \<Rightarrow> heap \<Rightarrow> heap" where
  "set_xBlockSize p v s = s\<lparr>mem := (mem s)(p + 8 := v)\<rparr>"

definition heapBLOCK_IS_ALLOCATED :: "heap \<Rightarrow> addr \<Rightarrow> bool" where
  "heapBLOCK_IS_ALLOCATED s p \<longleftrightarrow> xBlockSize s p AND heapBLOCK_ALLOCATED_BITMASK \<noteq> 0"

definition heapALLOCATE_BLOCK :: "addr \<Rightarrow> heap \<Rightarrow> heap" where
  "heapALLOCATE_BLOCK p s = set_xBlockSize p (xBlockSize s p OR heapBLOCK_ALLOCATED_BITMASK) s"

definition heapFREE_BLOCK :: "addr \<Rightarrow> heap \<Rightarrow> heap" where
  "heapFREE_BLOCK p s = set_xBlockSize p (xBlockSize s p AND NOT heapBLOCK_ALLOCATED_BITMASK) s"

text \<open>\<open>memset( pv, 0, n )\<close>: every byte at an offset below \<open>n\<close> from \<open>pv\<close> becomes 0.\<close>

definition memset_zero :: "addr \<Rightarrow> size_t \<Rightarrow> heap \<Rightarrow> heap" where
  "memset_zero pv n s = s\<lparr>mem := (\<lambda>a. if a - pv < n then 0 else mem s a)\<rparr>"

text \<open>
  Before the first call every static object is zero: the arena, \<open>xStart\<close>, \<open>pxEnd\<close> and
  the four counters.
\<close>

definition initial_heap :: heap where
  "initial_heap = \<lparr>mem = (\<lambda>_. 0), pxEnd = NULL, xFreeBytesRemaining = 0,
     xMinimumEverFreeBytesRemaining = 0, xNumberOfSuccessfulAllocations = 0,
     xNumberOfSuccessfulFrees = 0\<rparr>"

subsection \<open>prvInsertBlockIntoFreeList\<close>

text \<open>
  The search loop of the insertion: it walks from \<open>&xStart\<close> while the next node lies
  below the block.  The loop need not end on a list that is not well formed, so it is a
  partial function and \<open>None\<close> stands for a call that never returns.
\<close>

partial_function (option) insert_position :: "heap \<Rightarrow> addr \<Rightarrow> addr \<Rightarrow> addr option" where
  "insert_position s pxBlockToInsert pxIterator =
     (if pxNextFreeBlock s pxIterator < pxBlockToInsert
      then insert_position s pxBlockToInsert (pxNextFreeBlock s pxIterator)
      else Some pxIterator)"

declare insert_position.simps [code]

definition merge_with_previous :: "addr \<Rightarrow> addr \<Rightarrow> heap \<Rightarrow> addr \<times> heap" where
  "merge_with_previous pxIterator pxBlockToInsert s =
     (if pxIterator + xBlockSize s pxIterator = pxBlockToInsert
      then (pxIterator,
            set_xBlockSize pxIterator (xBlockSize s pxIterator + xBlockSize s pxBlockToInsert) s)
      else (pxBlockToInsert, s))"

definition merge_with_next :: "addr \<Rightarrow> addr \<Rightarrow> heap \<Rightarrow> heap" where
  "merge_with_next pxIterator pxBlockToInsert s =
     (if pxBlockToInsert + xBlockSize s pxBlockToInsert = pxNextFreeBlock s pxIterator
      then (if pxNextFreeBlock s pxIterator \<noteq> pxEnd s
            then (let s1 = set_xBlockSize pxBlockToInsert
                             (xBlockSize s pxBlockToInsert
                                + xBlockSize s (pxNextFreeBlock s pxIterator)) s
                  in set_pxNextFreeBlock pxBlockToInsert
                       (pxNextFreeBlock s1 (pxNextFreeBlock s1 pxIterator)) s1)
            else set_pxNextFreeBlock pxBlockToInsert (pxEnd s) s)
      else set_pxNextFreeBlock pxBlockToInsert (pxNextFreeBlock s pxIterator) s)"

definition link_previous :: "addr \<Rightarrow> addr \<Rightarrow> heap \<Rightarrow> heap" where
  "link_previous pxIterator pxBlockToInsert s =
     (if pxIterator \<noteq> pxBlockToInsert
      then set_pxNextFreeBlock pxIterator pxBlockToInsert s else s)"

definition insert_after :: "addr \<Rightarrow> addr \<Rightarrow> heap \<Rightarrow> heap" where
  "insert_after pxIterator pxBlockToInsert s =
     (case merge_with_previous pxIterator pxBlockToInsert s of
        (blk, s1) \<Rightarrow> link_previous pxIterator blk (merge_with_next pxIterator blk s1))"

definition prvInsertBlockIntoFreeList :: "layout \<Rightarrow> addr \<Rightarrow> heap \<Rightarrow> heap option" where
  "prvInsertBlockIntoFreeList L pxBlockToInsert s =
     (case insert_position s pxBlockToInsert (xStart L) of
        None \<Rightarrow> None
      | Some pxIterator \<Rightarrow> Some (insert_after pxIterator pxBlockToInsert s))"

subsection \<open>prvHeapInit\<close>

definition prvHeapInit :: "layout \<Rightarrow> heap \<Rightarrow> heap" where
  "prvHeapInit L s =
     (let (uxStartAddress, xTotalHeapSize) =
            (if ucHeap L AND portBYTE_ALIGNMENT_MASK \<noteq> 0
             then (let a = (ucHeap L + (portBYTE_ALIGNMENT - 1)) AND NOT portBYTE_ALIGNMENT_MASK
                   in (a, configTOTAL_HEAP_SIZE - (a - ucHeap L)))
             else (ucHeap L, configTOTAL_HEAP_SIZE));
          s1 = set_xBlockSize (xStart L) 0 (set_pxNextFreeBlock (xStart L) uxStartAddress s);
          uxEndAddress =
            (uxStartAddress + xTotalHeapSize - xHeapStructSize) AND NOT portBYTE_ALIGNMENT_MASK;
          s2 = s1\<lparr>pxEnd := uxEndAddress\<rparr>;
          s3 = set_pxNextFreeBlock uxEndAddress NULL (set_xBlockSize uxEndAddress 0 s2);
          s4 = set_pxNextFreeBlock uxStartAddress (pxEnd s3)
                 (set_xBlockSize uxStartAddress (uxEndAddress - uxStartAddress) s3);
          s5 = s4\<lparr>xFreeBytesRemaining := xBlockSize s4 uxStartAddress\<rparr>
      in s5\<lparr>xMinimumEverFreeBytesRemaining := xFreeBytesRemaining s5\<rparr>)"

subsection \<open>pvPortMalloc\<close>

text \<open>The size the request is turned into before the lock is taken.\<close>

definition adjusted_size :: "size_t \<Rightarrow> size_t" where
  "adjusted_size xWantedSize =
     (if xWantedSize > 0
      then (let w = xWantedSize + xHeapStructSize
            in if w AND portBYTE_ALIGNMENT_MASK \<noteq> 0
               then w + (portBYTE_ALIGNMENT - (w AND portBYTE_ALIGNMENT_MASK))
               else w)
      else xWantedSize)"

text \<open>The first-fit search; it returns the block found and the node before it.\<close>

partial_function (option) first_fit :: "heap \<Rightarrow> size_t \<Rightarrow> addr \<Rightarrow> addr \<Rightarrow> (addr \<times> addr) option" where
  "first_fit s xWantedSize pxPreviousBlock pxBlock =
     (if xBlockSize s pxBlock < xWantedSize \<and> pxNextFreeBlock s pxBlock \<noteq> NULL
      then first_fit s xWantedSize pxBlock (pxNextFreeBlock s pxBlock)
      else Some (pxPreviousBlock, pxBlock))"

declare first_fit.simps [code]

definition split_block :: "layout \<Rightarrow> size_t \<Rightarrow> addr \<Rightarrow> heap \<Rightarrow> heap option" where
  "split_block L xWantedSize pxBlock s =
     (if xBlockSize s pxBlock - xWantedSize > heapMINIMUM_BLOCK_SIZE
      then (let pxNewBlockLink = pxBlock + xWantedSize;
                s1 = set_xBlockSize pxNewBlockLink (xBlockSize s pxBlock - xWantedSize) s;
                s2 = set_xBlockSize pxBlock xWantedSize s1
            in prvInsertBlockIntoFreeList L pxNewBlockLink s2)
      else Some s)"

definition account_allocation :: "addr \<Rightarrow> heap \<Rightarrow> heap" where
  "account_allocation pxBlock s =
     (let s1 = s\<lparr>xFreeBytesRemaining := xFreeBytesRemaining s - xBlockSize s pxBlock\<rparr>;
          s2 = (if xFreeBytesRemaining s1 < xMinimumEverFreeBytesRemaining s1
                then s1\<lparr>xMinimumEverFreeBytesRemaining := xFreeBytesRemaining s1\<rparr>
                else s1);
          s3 = set_pxNextFreeBlock pxBlock NULL (heapALLOCATE_BLOCK pxBlock s2)
      in s3\<lparr>xNumberOfSuccessfulAllocations := xNumberOfSuccessfulAllocations s3 + 1\<rparr>)"

text \<open>What the call does once the search has stopped at a block other than \<open>pxEnd\<close>.\<close>

definition take_block :: "layout \<Rightarrow> size_t \<Rightarrow> addr \<Rightarrow> addr \<Rightarrow> heap \<Rightarrow> (addr \<times> heap) option" where
  "take_block L xWantedSize pxPreviousBlock pxBlock s =
     (let pvReturn = pxNextFreeBlock s pxPreviousBlock + xHeapStructSize;
          s1 = set_pxNextFreeBlock pxPreviousBlock (pxNextFreeBlock s pxBlock) s
      in case split_block L xWantedSize pxBlock s1 of
           None \<Rightarrow> None
         | Some s2 \<Rightarrow> Some (pvReturn, account_allocation pxBlock s2))"

definition search_and_take :: "layout \<Rightarrow> size_t \<Rightarrow> heap \<Rightarrow> (addr \<times> heap) option" where
  "search_and_take L xWantedSize s =
     (if xWantedSize > 0 \<and> xWantedSize \<le> xFreeBytesRemaining s
      then (case first_fit s xWantedSize (xStart L) (pxNextFreeBlock s (xStart L)) of
              None \<Rightarrow> None
            | Some (pxPreviousBlock, pxBlock) \<Rightarrow>
                if pxBlock \<noteq> pxEnd s
                then take_block L xWantedSize pxPreviousBlock pxBlock s
                else Some (NULL, s))
      else Some (NULL, s))"

definition pvPortMalloc :: "layout \<Rightarrow> size_t \<Rightarrow> heap \<Rightarrow> (addr \<times> heap) option" where
  "pvPortMalloc L n s =
     search_and_take L (adjusted_size n) (if pxEnd s = NULL then prvHeapInit L s else s)"

subsection \<open>vPortFree\<close>

text \<open>
  A failed \<open>configASSERT\<close> spins in \<open>for( ;; );\<close>: the call never returns and nothing after
  the assertion runs.  The model reports it as the error \<open>AssertionFailed\<close>.
\<close>

datatype error = AssertionFailed

text \<open>The body of \<open>vPortFree\<close> after the two assertions have passed.\<close>

definition release_block :: "layout \<Rightarrow> addr \<Rightarrow> addr \<Rightarrow> heap \<Rightarrow> heap option" where
  "release_block L pv pxLink s =
     (let s1 = heapFREE_BLOCK pxLink s;
          s2 = memset_zero pv (xBlockSize s1 pxLink - xHeapStructSize) s1;
          s3 = s2\<lparr>xFreeBytesRemaining := xFreeBytesRemaining s2 + xBlockSize s2 pxLink\<rparr>
      in case prvInsertBlockIntoFreeList L pxLink s3 of
           None \<Rightarrow> None
         | Some s4 \<Rightarrow>
             Some (s4\<lparr>xNumberOfSuccessfulFrees := xNumberOfSuccessfulFrees s4 + 1\<rparr>))"

definition vPortFree :: "layout \<Rightarrow> addr \<Rightarrow> heap \<Rightarrow> (error + heap) option" where
  "vPortFree L pv s =
     (if pv \<noteq> NULL
      then (let pxLink = pv - xHeapStructSize
            in if \<not> heapBLOCK_IS_ALLOCATED s pxLink then Some (Inl AssertionFailed)
               else if pxNextFreeBlock s pxLink \<noteq> NULL then Some (Inl AssertionFailed)
               else if heapBLOCK_IS_ALLOCATED s pxLink
               then map_option Inr (release_block L pv pxLink s)
               else Some (Inr s))
      else Some (Inr s))"

subsection \<open>The accessors\<close>

definition xPortGetFreeHeapSize :: "heap \<Rightarrow> size_t" where
  "xPortGetFreeHeapSize s = xFreeBytesRemaining s"

definition xPortGetMinimumEverFreeHeapSize :: "heap \<Rightarrow> size_t" where
  "xPortGetMinimumEverFreeHeapSize s = xMinimumEverFreeBytesRemaining s"

subsection \<open>Sequences of calls\<close>

text \<open>
  A client calls \<open>pvPortMalloc\<close> with any size and \<open>vPortFree\<close> with a pointer it got
  from an earlier \<open>pvPortMalloc\<close> (or with \<open>NULL\<close>).  \<open>Free k\<close> releases the pointer the
  \<open>k\<close>-th \<open>Malloc\<close> of the run returned; an index nothing was returned for stands for
  \<open>vPortFree( NULL )\<close>.  The run carries the pointers returned so far and stops at the
  first failed assertion.
\<close>

datatype call = Malloc size_t | Free nat

fun run :: "layout \<Rightarrow> call list \<Rightarrow> heap \<times> addr list \<Rightarrow> (error + heap \<times> addr list) option" where
  "run L [] c = Some (Inr c)"
| "run L (Malloc n # cs) (s, ps) =
     (case pvPortMalloc L n s of
        None \<Rightarrow> None
      | Some (p, s') \<Rightarrow> run L cs (s', ps @ [p]))"
| "run L (Free k # cs) (s, ps) =
     (case vPortFree L (if k < length ps then ps ! k else NULL) s of
        None \<Rightarrow> None
      | Some (Inl e) \<Rightarrow> Some (Inl e)
      | Some (Inr s') \<Rightarrow> run L cs (s', ps))"

text \<open>A layout for the concrete runs: the arena at \<open>0x10000\<close>, \<open>xStart\<close> at \<open>0x1000\<close>.\<close>

definition example_layout :: layout where
  "example_layout = \<lparr>ucHeap = 0x10000, xStart = 0x1000\<rparr>"

text \<open>The static variables other than the memory, for the frame lemmas.\<close>

definition statics :: "heap \<Rightarrow> addr \<times> size_t \<times> size_t \<times> size_t \<times> size_t" where
  "statics s = (pxEnd s, xFreeBytesRemaining s, xMinimumEverFreeBytesRemaining s,
     xNumberOfSuccessfulAllocations s, xNumberOfSuccessfulFrees s)"

subsection \<open>The client's stores\<close>

text \<open>
  Between two calls the client writes to the memory it asked for.  \<open>client_store a v\<close> is
  its store of the 64-bit word \<open>v\<close> at the address \<open>a\<close>.
\<close>

definition client_store :: "addr \<Rightarrow> 64 word \<Rightarrow> heap \<Rightarrow> heap" where
  "client_store a v s = s\<lparr>mem := (mem s)(a := v)\<rparr>"

section \<open>Basic facts\<close>

lemma xHeapStructSize_16: "xHeapStructSize = 16"
  by (simp add: xHeapStructSize_def sizeof_BlockLink_t_def portBYTE_ALIGNMENT_MASK_def
      portBYTE_ALIGNMENT_def)

lemma heapMINIMUM_BLOCK_SIZE_32: "heapMINIMUM_BLOCK_SIZE = 32"
  by (simp add: heapMINIMUM_BLOCK_SIZE_def xHeapStructSize_16)

lemma heapBLOCK_ALLOCATED_BITMASK_val: "heapBLOCK_ALLOCATED_BITMASK = 0x8000000000000000"
  by (simp add: heapBLOCK_ALLOCATED_BITMASK_def)

lemma portBYTE_ALIGNMENT_MASK_7: "portBYTE_ALIGNMENT_MASK = 7"
  by (simp add: portBYTE_ALIGNMENT_MASK_def portBYTE_ALIGNMENT_def)

lemma adjusted_size_0: "adjusted_size 0 = 0"
  by (simp add: adjusted_size_def)

subsection \<open>Unfolding the two loops\<close>

lemma insert_position_step:
  "pxNextFreeBlock s it < b \<Longrightarrow>
     insert_position s b it = insert_position s b (pxNextFreeBlock s it)"
  by (subst insert_position.simps) simp

lemma insert_position_stop:
  "\<not> pxNextFreeBlock s it < b \<Longrightarrow> insert_position s b it = Some it"
  by (subst insert_position.simps) simp

lemma first_fit_step:
  "xBlockSize s blk < w \<Longrightarrow> pxNextFreeBlock s blk \<noteq> NULL \<Longrightarrow>
     first_fit s w prev blk = first_fit s w blk (pxNextFreeBlock s blk)"
  by (subst first_fit.simps) simp

lemma first_fit_stop_size:
  "\<not> xBlockSize s blk < w \<Longrightarrow> first_fit s w prev blk = Some (prev, blk)"
  by (subst first_fit.simps) simp

lemma first_fit_stop_null:
  "pxNextFreeBlock s blk = NULL \<Longrightarrow> first_fit s w prev blk = Some (prev, blk)"
  by (subst first_fit.simps) simp

text \<open>The rules that evaluate a call on a concrete heap.\<close>

lemmas eval_simps = example_layout_def initial_heap_def NULL_def configTOTAL_HEAP_SIZE_def
  portBYTE_ALIGNMENT_def portBYTE_ALIGNMENT_MASK_7 xHeapStructSize_16 heapMINIMUM_BLOCK_SIZE_32
  heapBLOCK_ALLOCATED_BITMASK_val
  pxNextFreeBlock_def xBlockSize_def set_pxNextFreeBlock_def set_xBlockSize_def
  heapBLOCK_IS_ALLOCATED_def heapALLOCATE_BLOCK_def heapFREE_BLOCK_def memset_zero_def
  merge_with_previous_def merge_with_next_def link_previous_def insert_after_def
  prvInsertBlockIntoFreeList_def prvHeapInit_def adjusted_size_def split_block_def
  account_allocation_def take_block_def search_and_take_def pvPortMalloc_def
  release_block_def vPortFree_def Let_def
  xPortGetFreeHeapSize_def xPortGetMinimumEverFreeHeapSize_def
  insert_position_step insert_position_stop first_fit_step first_fit_stop_size
  first_fit_stop_null

subsection \<open>What the operations leave alone\<close>

lemma statics_eqD:
  assumes "statics s' = statics s"
  shows "pxEnd s' = pxEnd s" "xFreeBytesRemaining s' = xFreeBytesRemaining s"
    "xMinimumEverFreeBytesRemaining s' = xMinimumEverFreeBytesRemaining s"
    "xNumberOfSuccessfulAllocations s' = xNumberOfSuccessfulAllocations s"
    "xNumberOfSuccessfulFrees s' = xNumberOfSuccessfulFrees s"
  using assms by (simp_all add: statics_def)

lemma statics_set_pxNextFreeBlock [simp]: "statics (set_pxNextFreeBlock p v s) = statics s"
  by (simp add: statics_def set_pxNextFreeBlock_def)

lemma statics_set_xBlockSize [simp]: "statics (set_xBlockSize p v s) = statics s"
  by (simp add: statics_def set_xBlockSize_def)

lemma statics_heapALLOCATE_BLOCK [simp]: "statics (heapALLOCATE_BLOCK p s) = statics s"
  by (simp add: heapALLOCATE_BLOCK_def)

lemma statics_heapFREE_BLOCK [simp]: "statics (heapFREE_BLOCK p s) = statics s"
  by (simp add: heapFREE_BLOCK_def)

lemma statics_memset_zero [simp]: "statics (memset_zero p n s) = statics s"
  by (simp add: statics_def memset_zero_def)

lemma statics_merge_with_previous [simp]:
  "statics (snd (merge_with_previous it b s)) = statics s"
  by (simp add: merge_with_previous_def)

lemma statics_merge_with_next [simp]: "statics (merge_with_next it b s) = statics s"
  by (simp add: merge_with_next_def Let_def)

lemma statics_link_previous [simp]: "statics (link_previous it b s) = statics s"
  by (simp add: link_previous_def)

lemma statics_insert_after [simp]: "statics (insert_after it b s) = statics s"
  by (simp add: insert_after_def split_beta)

lemma prvInsertBlockIntoFreeList_SomeD:
  "prvInsertBlockIntoFreeList L b s = Some s' \<Longrightarrow>
     \<exists>it. insert_position s b (xStart L) = Some it \<and> s' = insert_after it b s"
  by (simp add: prvInsertBlockIntoFreeList_def split: option.splits)

lemma statics_prvInsertBlockIntoFreeList:
  "prvInsertBlockIntoFreeList L b s = Some s' \<Longrightarrow> statics s' = statics s"
  by (auto dest: prvInsertBlockIntoFreeList_SomeD)

lemma statics_split_block:
  "split_block L w b s = Some s' \<Longrightarrow> statics s' = statics s"
  by (auto simp: split_block_def Let_def split: if_splits
      dest!: statics_prvInsertBlockIntoFreeList)

lemma account_allocation_statics:
  "pxEnd (account_allocation b s) = pxEnd s"
  "xMinimumEverFreeBytesRemaining (account_allocation b s) \<le> xMinimumEverFreeBytesRemaining s"
  "xNumberOfSuccessfulFrees (account_allocation b s) = xNumberOfSuccessfulFrees s"
  by (auto simp: account_allocation_def Let_def set_pxNextFreeBlock_def heapALLOCATE_BLOCK_def
      set_xBlockSize_def)

lemma take_block_watermark:
  assumes "take_block L w prev b s = Some (p, s')"
  shows "pxEnd s' = pxEnd s \<and>
    xMinimumEverFreeBytesRemaining s' \<le> xMinimumEverFreeBytesRemaining s"
proof -
  from assms obtain s2 where
    s2: "split_block L w b (set_pxNextFreeBlock prev (pxNextFreeBlock s b) s) = Some s2"
    and s': "s' = account_allocation b s2"
    by (auto simp: take_block_def Let_def split: option.splits)
  from statics_split_block [OF s2] have "statics s2 = statics s" by simp
  from statics_eqD(1,3) [OF this] show ?thesis
    using account_allocation_statics(1,2) [of b s2] by (simp add: s')
qed

lemma search_and_take_watermark:
  assumes "search_and_take L w s = Some (p, s')"
  shows "pxEnd s' = pxEnd s \<and>
    xMinimumEverFreeBytesRemaining s' \<le> xMinimumEverFreeBytesRemaining s"
  using assms
  by (auto simp: search_and_take_def split: if_splits option.splits dest: take_block_watermark)

lemma pvPortMalloc_initialised:
  "pxEnd s \<noteq> NULL \<Longrightarrow> pvPortMalloc L n s = search_and_take L (adjusted_size n) s"
  by (simp add: pvPortMalloc_def)

lemma release_block_statics:
  assumes "release_block L pv b s = Some s'"
  shows "pxEnd s' = pxEnd s"
    "xMinimumEverFreeBytesRemaining s' = xMinimumEverFreeBytesRemaining s"
    "xNumberOfSuccessfulAllocations s' = xNumberOfSuccessfulAllocations s"
proof -
  define s2 where
    "s2 = memset_zero pv (xBlockSize (heapFREE_BLOCK b s) b - xHeapStructSize) (heapFREE_BLOCK b s)"
  define s3 where "s3 = s2\<lparr>xFreeBytesRemaining := xFreeBytesRemaining s2 + xBlockSize s2 b\<rparr>"
  from assms obtain s4 where s4: "prvInsertBlockIntoFreeList L b s3 = Some s4"
    and s': "s' = s4\<lparr>xNumberOfSuccessfulFrees := xNumberOfSuccessfulFrees s4 + 1\<rparr>"
    by (auto simp: release_block_def s3_def s2_def Let_def split: option.splits)
  have "statics s2 = statics s"
    by (simp add: s2_def)
  from statics_eqD(1,3,4) [OF this]
  have a: "pxEnd s3 = pxEnd s"
    "xMinimumEverFreeBytesRemaining s3 = xMinimumEverFreeBytesRemaining s"
    "xNumberOfSuccessfulAllocations s3 = xNumberOfSuccessfulAllocations s"
    by (simp_all add: s3_def)
  from statics_eqD(1,3,4) [OF statics_prvInsertBlockIntoFreeList [OF s4]] a
  show "pxEnd s' = pxEnd s"
    "xMinimumEverFreeBytesRemaining s' = xMinimumEverFreeBytesRemaining s"
    "xNumberOfSuccessfulAllocations s' = xNumberOfSuccessfulAllocations s"
    by (simp_all add: s')
qed

lemma vPortFree_statics:
  assumes "vPortFree L pv s = Some (Inr s')"
  shows "pxEnd s' = pxEnd s"
    "xMinimumEverFreeBytesRemaining s' = xMinimumEverFreeBytesRemaining s"
    "xNumberOfSuccessfulAllocations s' = xNumberOfSuccessfulAllocations s"
  using assms
  by (auto simp: vPortFree_def Let_def split: if_splits dest: release_block_statics)

section \<open>A request of zero bytes\<close>

text \<open>
  Claim C8.  \<open>pvPortMalloc( 0 )\<close> returns \<open>NULL\<close> and allocates nothing: the state after
  the call is the state before it, counters and free list included, except that a heap
  that was not initialised yet has been initialised by \<open>prvHeapInit\<close>.
\<close>

theorem malloc_zero_size:
  "pvPortMalloc L 0 s = Some (NULL, if pxEnd s = NULL then prvHeapInit L s else s)"
  by (simp add: pvPortMalloc_def adjusted_size_0 search_and_take_def)

section \<open>The watermark\<close>

text \<open>
  Claim C6.  On an initialised heap, whatever sequence of \<open>pvPortMalloc\<close> and
  \<open>vPortFree\<close> calls runs, the value of \<open>xPortGetMinimumEverFreeHeapSize\<close> after it is at
  most the value before it (and the heap is still initialised).  Every prefix of a run is
  a run, so the value never increases from one call to the next.
\<close>

theorem watermark_never_increases:
  "pxEnd s \<noteq> NULL \<Longrightarrow> run L cs (s, ps) = Some (Inr (s', ps')) \<Longrightarrow>
     pxEnd s' \<noteq> NULL \<and>
     xPortGetMinimumEverFreeHeapSize s' \<le> xPortGetMinimumEverFreeHeapSize s"
proof (induction cs arbitrary: s ps)
  case Nil
  then show ?case by simp
next
  case (Cons c cs)
  show ?case
  proof (cases c)
    case (Malloc n)
    with Cons.prems obtain p s1 where m: "pvPortMalloc L n s = Some (p, s1)"
      and r: "run L cs (s1, ps @ [p]) = Some (Inr (s', ps'))"
      by (auto split: option.splits)
    from m Cons.prems(1) have "search_and_take L (adjusted_size n) s = Some (p, s1)"
      by (simp add: pvPortMalloc_initialised)
    from search_and_take_watermark [OF this] Cons.prems(1)
    have s1: "pxEnd s1 \<noteq> NULL"
      "xMinimumEverFreeBytesRemaining s1 \<le> xMinimumEverFreeBytesRemaining s"
      by simp_all
    from Cons.IH [OF s1(1) r] s1(2) show ?thesis
      by (auto simp: xPortGetMinimumEverFreeHeapSize_def)
  next
    case (Free k)
    with Cons.prems obtain s1 where
      f: "vPortFree L (if k < length ps then ps ! k else NULL) s = Some (Inr s1)"
      and r: "run L cs (s1, ps) = Some (Inr (s', ps'))"
      by (auto split: option.splits sum.splits)
    from vPortFree_statics(1,2) [OF f] Cons.prems(1)
    have s1: "pxEnd s1 \<noteq> NULL"
      "xMinimumEverFreeBytesRemaining s1 = xMinimumEverFreeBytesRemaining s"
      by simp_all
    from Cons.IH [OF s1(1) r] s1(2) show ?thesis
      by (auto simp: xPortGetMinimumEverFreeHeapSize_def)
  qed
qed

lemma example_run_returns:
  "\<exists>s ps. run example_layout [Malloc 10, Free 0, Malloc 100]
      (prvHeapInit example_layout initial_heap, []) = Some (Inr (s, ps)) \<and> xMinimumEverFreeBytesRemaining s = 40824"
  by (simp add: eval_simps)

theorem watermark_never_increases_witness:
  "pxEnd (prvHeapInit example_layout initial_heap) \<noteq> NULL \<and>
   (case run example_layout [Malloc 10, Free 0, Malloc 100]
           (prvHeapInit example_layout initial_heap, []) of
      Some (Inr (s', ps')) \<Rightarrow>
        xPortGetMinimumEverFreeHeapSize s'
          \<le> xPortGetMinimumEverFreeHeapSize (prvHeapInit example_layout initial_heap)
        \<and> xPortGetMinimumEverFreeHeapSize s' = 40824
        \<and> xPortGetMinimumEverFreeHeapSize (prvHeapInit example_layout initial_heap) = 40944
    | _ \<Rightarrow> False)"
proof -
  have i: "pxEnd (prvHeapInit example_layout initial_heap) \<noteq> NULL"
    by (simp add: eval_simps)
  obtain s ps where r: "run example_layout [Malloc 10, Free 0, Malloc 100]
      (prvHeapInit example_layout initial_heap, []) = Some (Inr (s, ps))"
    and m: "xMinimumEverFreeBytesRemaining s = 40824"
    using example_run_returns by blast
  have "xMinimumEverFreeBytesRemaining (prvHeapInit example_layout initial_heap) = 40944"
    by (simp add: eval_simps)
  with watermark_never_increases [OF i r] i r m show ?thesis
    by (simp add: xPortGetMinimumEverFreeHeapSize_def)
qed

section \<open>Requests larger than the arena\<close>

text \<open>
  Claim C1.  The claim asks that a request larger than the usable arena fails, also when
  adding the header size and rounding up overflows \<open>size_t\<close>.  The code adds and rounds
  without a check: on a fresh arena of 40944 usable bytes the request of \<open>2^64 - 1\<close> bytes
  wraps to a block size of 16, and the call returns the non-null pointer \<open>0x10010\<close> to a
  block that has no payload at all, counts a successful allocation and takes 16 bytes from
  the free-byte counter.
\<close>

theorem malloc_wrapped_size_succeeds:
  "xFreeBytesRemaining (prvHeapInit example_layout initial_heap) = 40944 \<and>
   (case pvPortMalloc example_layout 0xFFFFFFFFFFFFFFFF initial_heap of
      Some (p, s) \<Rightarrow> p = 0x10010 \<and> p \<noteq> NULL \<and> xNumberOfSuccessfulAllocations s = 1 \<and>
        xFreeBytesRemaining s = 40928 \<and> xBlockSize s 0x10000 = 0x8000000000000010
    | None \<Rightarrow> False)"
  by (simp add: eval_simps)

section \<open>Alignment\<close>

text \<open>An address or size is aligned when its low three bits are clear.\<close>

definition aligned :: "64 word \<Rightarrow> bool" where
  "aligned a \<longleftrightarrow> a AND portBYTE_ALIGNMENT_MASK = 0"

lemma aligned_mask: "aligned a \<longleftrightarrow> a AND mask 3 = 0"
  by (simp add: aligned_def portBYTE_ALIGNMENT_MASK_7 mask_eq_exp_minus_1)

lemma aligned_iff_dvd: "aligned a \<longleftrightarrow> 8 dvd unat a"
  using and_mask_dvd_nat [of 3 a] by (simp add: aligned_mask)

lemma aligned_0 [simp]: "aligned 0"
  by (simp add: aligned_def)

lemma aligned_add: "aligned a \<Longrightarrow> aligned b \<Longrightarrow> aligned (a + b)"
  using mask_eqs(7) [of a 3 b] by (simp add: aligned_mask)

lemma aligned_diff: "aligned a \<Longrightarrow> aligned b \<Longrightarrow> aligned (a - b)"
  using mask_eqs(8) [of a 3 b] by (simp add: aligned_mask)

lemma aligned_numerals [simp]: "aligned 8" "aligned 16" "aligned xHeapStructSize"
  by (simp_all add: aligned_def portBYTE_ALIGNMENT_MASK_7 xHeapStructSize_16)

lemma aligned_round_down [simp]: "aligned (x AND NOT portBYTE_ALIGNMENT_MASK)"
  by (simp add: aligned_def word_bw_assocs)

lemma aligned_or_flag: "aligned a \<Longrightarrow> aligned (a OR heapBLOCK_ALLOCATED_BITMASK)"
  by (simp add: aligned_def word_ao_dist portBYTE_ALIGNMENT_MASK_7 heapBLOCK_ALLOCATED_BITMASK_val)

lemma aligned_and_not_flag:
  assumes "aligned a"
  shows "aligned (a AND NOT heapBLOCK_ALLOCATED_BITMASK)"
proof -
  have "(a AND NOT heapBLOCK_ALLOCATED_BITMASK) AND portBYTE_ALIGNMENT_MASK
      = (a AND portBYTE_ALIGNMENT_MASK) AND NOT heapBLOCK_ALLOCATED_BITMASK"
    by (simp add: ac_simps)
  with assms show ?thesis by (simp add: aligned_def)
qed

lemma aligned_adjusted_size: "aligned (adjusted_size n)"
proof (cases "0 < n")
  case False
  then have "n = 0" by (simp add: word_gt_0)
  then show ?thesis by (simp add: adjusted_size_def)
next
  case True
  have r: "(w + (8 - (w AND mask 3))) AND mask 3 = 0" for w :: "64 word"
  proof -
    have "(w + (8 - (w AND mask 3))) AND mask 3 = (w + (8 - w)) AND mask 3"
      by (metis mask_eqs(2) mask_eqs(4))
    also have "\<dots> = 0"
      by (simp add: mask_eq_exp_minus_1)
    finally show ?thesis .
  qed
  show ?thesis
  proof (cases "(n + xHeapStructSize) AND portBYTE_ALIGNMENT_MASK = 0")
    case True
    with \<open>0 < n\<close> show ?thesis
      by (simp add: adjusted_size_def Let_def aligned_def)
  next
    case False
    with \<open>0 < n\<close> r [of "n + xHeapStructSize"] show ?thesis
      by (simp add: adjusted_size_def Let_def aligned_def portBYTE_ALIGNMENT_MASK_7
          portBYTE_ALIGNMENT_def mask_eq_exp_minus_1)
  qed
qed

text \<open>
  The invariant behind the alignment claim: every cell of the memory and \<open>pxEnd\<close> hold
  aligned values (the allocation flag is bit 63 and does not disturb the low bits).  Each
  operation writes only sums and differences of aligned values, so it keeps the invariant
  on every heap, well formed or not.
\<close>

definition cells_aligned :: "heap \<Rightarrow> bool" where
  "cells_aligned s \<longleftrightarrow> (\<forall>a. aligned (mem s a)) \<and> aligned (pxEnd s)"

lemma cells_aligned_read:
  "cells_aligned s \<Longrightarrow> aligned (pxNextFreeBlock s p)"
  "cells_aligned s \<Longrightarrow> aligned (xBlockSize s p)"
  "cells_aligned s \<Longrightarrow> aligned (pxEnd s)"
  by (simp_all add: cells_aligned_def pxNextFreeBlock_def xBlockSize_def)

lemma cells_aligned_set_pxNextFreeBlock:
  "cells_aligned s \<Longrightarrow> aligned v \<Longrightarrow> cells_aligned (set_pxNextFreeBlock p v s)"
  by (simp add: cells_aligned_def set_pxNextFreeBlock_def)

lemma cells_aligned_set_xBlockSize:
  "cells_aligned s \<Longrightarrow> aligned v \<Longrightarrow> cells_aligned (set_xBlockSize p v s)"
  by (simp add: cells_aligned_def set_xBlockSize_def)

lemma cells_aligned_heapALLOCATE_BLOCK:
  "cells_aligned s \<Longrightarrow> cells_aligned (heapALLOCATE_BLOCK p s)"
  by (simp add: heapALLOCATE_BLOCK_def cells_aligned_set_xBlockSize aligned_or_flag
      cells_aligned_read)

lemma cells_aligned_heapFREE_BLOCK:
  "cells_aligned s \<Longrightarrow> cells_aligned (heapFREE_BLOCK p s)"
  by (simp add: heapFREE_BLOCK_def cells_aligned_set_xBlockSize aligned_and_not_flag
      cells_aligned_read)

lemma cells_aligned_memset_zero:
  "cells_aligned s \<Longrightarrow> cells_aligned (memset_zero p n s)"
  by (simp add: cells_aligned_def memset_zero_def)

lemma cells_aligned_counters:
  "cells_aligned (s\<lparr>xFreeBytesRemaining := v\<rparr>) = cells_aligned s"
  "cells_aligned (s\<lparr>xMinimumEverFreeBytesRemaining := v\<rparr>) = cells_aligned s"
  "cells_aligned (s\<lparr>xNumberOfSuccessfulAllocations := v\<rparr>) = cells_aligned s"
  "cells_aligned (s\<lparr>xNumberOfSuccessfulFrees := v\<rparr>) = cells_aligned s"
  by (simp_all add: cells_aligned_def)

lemma cells_aligned_merge_with_previous:
  assumes "cells_aligned s" "aligned it" "aligned b"
  shows "cells_aligned (snd (merge_with_previous it b s))"
    and "aligned (fst (merge_with_previous it b s))"
  using assms
  by (simp_all add: merge_with_previous_def cells_aligned_set_xBlockSize aligned_add
      cells_aligned_read)

lemma cells_aligned_merge_with_next:
  assumes "cells_aligned s"
  shows "cells_aligned (merge_with_next it b s)"
proof -
  let ?s1 = "set_xBlockSize b (xBlockSize s b + xBlockSize s (pxNextFreeBlock s it)) s"
  have s1: "cells_aligned ?s1"
    using assms by (simp add: cells_aligned_set_xBlockSize aligned_add cells_aligned_read)
  then have "cells_aligned (set_pxNextFreeBlock b (pxNextFreeBlock ?s1 (pxNextFreeBlock ?s1 it)) ?s1)"
    by (simp add: cells_aligned_set_pxNextFreeBlock cells_aligned_read)
  with assms show ?thesis
    by (simp add: merge_with_next_def Let_def cells_aligned_set_pxNextFreeBlock
        cells_aligned_read)
qed

lemma cells_aligned_link_previous:
  "cells_aligned s \<Longrightarrow> aligned b \<Longrightarrow> cells_aligned (link_previous it b s)"
  by (simp add: link_previous_def cells_aligned_set_pxNextFreeBlock)

lemma cells_aligned_insert_after:
  assumes "cells_aligned s" "aligned it" "aligned b"
  shows "cells_aligned (insert_after it b s)"
  using cells_aligned_merge_with_previous [OF assms]
  by (simp add: insert_after_def split_beta cells_aligned_link_previous
      cells_aligned_merge_with_next)

lemma aligned_insert_position:
  assumes "insert_position s b it0 = Some it"
  shows "cells_aligned s \<Longrightarrow> aligned it0 \<Longrightarrow> aligned it"
  using assms
proof (induction rule: insert_position.raw_induct [rotated, consumes 1, case_names step])
  case (step f s b it0 it)
  show ?case
  proof (cases "pxNextFreeBlock s it0 < b")
    case True
    with step.hyps have "f s b (pxNextFreeBlock s it0) = Some it"
      by simp
    with step.IH [of s b "pxNextFreeBlock s it0" it] step.prems show ?thesis
      by (simp add: cells_aligned_read)
  next
    case False
    with step.hyps step.prems show ?thesis by simp
  qed
qed

lemma cells_aligned_prvInsertBlockIntoFreeList:
  assumes "prvInsertBlockIntoFreeList L b s = Some s'" "cells_aligned s" "aligned (xStart L)"
    "aligned b"
  shows "cells_aligned s'"
proof -
  from prvInsertBlockIntoFreeList_SomeD [OF assms(1)] obtain it where
    it: "insert_position s b (xStart L) = Some it" and s': "s' = insert_after it b s"
    by blast
  from aligned_insert_position [OF it assms(2,3)] assms show ?thesis
    by (simp add: s' cells_aligned_insert_after)
qed

lemma aligned_first_fit:
  assumes "first_fit s w prev blk = Some r"
  shows "cells_aligned s \<Longrightarrow> aligned prev \<Longrightarrow> aligned blk \<Longrightarrow>
     aligned (fst r) \<and> aligned (snd r)"
  using assms
proof (induction rule: first_fit.raw_induct [rotated, consumes 1, case_names step])
  case (step f s w prev blk r)
  show ?case
  proof (cases "xBlockSize s blk < w \<and> pxNextFreeBlock s blk \<noteq> NULL")
    case True
    with step.hyps have "f s w blk (pxNextFreeBlock s blk) = Some r"
      by simp
    with step.IH [of s w blk "pxNextFreeBlock s blk" r] step.prems show ?thesis
      by (simp add: cells_aligned_read)
  next
    case False
    with step.hyps step.prems show ?thesis by auto
  qed
qed

lemma cells_aligned_prvHeapInit:
  assumes "cells_aligned s"
  shows "cells_aligned (prvHeapInit L s)"
proof -
  define a where "a = (if ucHeap L AND portBYTE_ALIGNMENT_MASK \<noteq> 0
             then (ucHeap L + (portBYTE_ALIGNMENT - 1)) AND NOT portBYTE_ALIGNMENT_MASK
             else ucHeap L)"
  define t where "t = (if ucHeap L AND portBYTE_ALIGNMENT_MASK \<noteq> 0
             then configTOTAL_HEAP_SIZE - (a - ucHeap L) else configTOTAL_HEAP_SIZE)"
  define e where "e = (a + t - xHeapStructSize) AND NOT portBYTE_ALIGNMENT_MASK"
  have a: "aligned a"
    using aligned_round_down [of "ucHeap L + (portBYTE_ALIGNMENT - 1)"]
    by (auto simp: a_def aligned_def)
  have e: "aligned e" by (simp add: e_def)
  define s1 where "s1 = set_xBlockSize (xStart L) 0 (set_pxNextFreeBlock (xStart L) a s)"
  define s3 where "s3 = set_pxNextFreeBlock e NULL (set_xBlockSize e 0 (s1\<lparr>pxEnd := e\<rparr>))"
  define s4 where "s4 = set_pxNextFreeBlock a (pxEnd s3) (set_xBlockSize a (e - a) s3)"
  have s1: "cells_aligned s1"
    using assms a by (simp add: s1_def cells_aligned_set_xBlockSize cells_aligned_set_pxNextFreeBlock)
  then have "cells_aligned (s1\<lparr>pxEnd := e\<rparr>)"
    using e by (simp add: cells_aligned_def)
  then have s3: "cells_aligned s3"
    by (simp add: s3_def NULL_def cells_aligned_set_xBlockSize cells_aligned_set_pxNextFreeBlock)
  then have s4: "cells_aligned s4"
    using a e by (simp add: s4_def cells_aligned_set_xBlockSize cells_aligned_set_pxNextFreeBlock
        aligned_diff cells_aligned_read)
  have "prvHeapInit L s = s4\<lparr>xFreeBytesRemaining := xBlockSize s4 a,
      xMinimumEverFreeBytesRemaining := xBlockSize s4 a\<rparr>"
    by (simp add: prvHeapInit_def Let_def s4_def s3_def s1_def e_def t_def a_def)
  with s4 show ?thesis by (simp add: cells_aligned_counters)
qed

lemma cells_aligned_split_block:
  assumes "split_block L w b s = Some s'" "cells_aligned s" "aligned (xStart L)" "aligned b"
    "aligned w"
  shows "cells_aligned s'"
proof (cases "xBlockSize s b - w > heapMINIMUM_BLOCK_SIZE")
  case False
  with assms show ?thesis by (simp add: split_block_def)
next
  case True
  let ?s2 = "set_xBlockSize b w (set_xBlockSize (b + w) (xBlockSize s b - w) s)"
  from True assms(1) have i: "prvInsertBlockIntoFreeList L (b + w) ?s2 = Some s'"
    by (simp add: split_block_def Let_def)
  have "cells_aligned ?s2"
    using assms by (simp add: cells_aligned_set_xBlockSize aligned_diff cells_aligned_read)
  from cells_aligned_prvInsertBlockIntoFreeList [OF i this assms(3)] assms show ?thesis
    by (simp add: aligned_add)
qed

lemma cells_aligned_account_allocation:
  "cells_aligned s \<Longrightarrow> cells_aligned (account_allocation b s)"
  by (simp add: account_allocation_def Let_def cells_aligned_counters
      cells_aligned_set_pxNextFreeBlock cells_aligned_heapALLOCATE_BLOCK NULL_def)

lemma cells_aligned_take_block:
  assumes "take_block L w prev b s = Some (p, s')" "cells_aligned s" "aligned (xStart L)"
    "aligned b" "aligned w"
  shows "cells_aligned s' \<and> aligned p"
proof -
  let ?s1 = "set_pxNextFreeBlock prev (pxNextFreeBlock s b) s"
  from assms(1) obtain s2 where s2: "split_block L w b ?s1 = Some s2"
    and s': "s' = account_allocation b s2"
    and p: "p = pxNextFreeBlock s prev + xHeapStructSize"
    by (auto simp: take_block_def Let_def split: option.splits)
  have "cells_aligned ?s1"
    using assms(2) by (simp add: cells_aligned_set_pxNextFreeBlock cells_aligned_read)
  from cells_aligned_split_block [OF s2 this assms(3,4,5)]
  show ?thesis
    using assms(2) by (simp add: s' p cells_aligned_account_allocation aligned_add
        cells_aligned_read)
qed

lemma cells_aligned_search_and_take:
  assumes "search_and_take L w s = Some (p, s')" "cells_aligned s" "aligned (xStart L)"
    "aligned w"
  shows "cells_aligned s' \<and> aligned p"
proof (cases "w > 0 \<and> w \<le> xFreeBytesRemaining s")
  case False
  with assms show ?thesis by (auto simp: search_and_take_def NULL_def)
next
  case True
  with assms(1) obtain prev b where
    ff: "first_fit s w (xStart L) (pxNextFreeBlock s (xStart L)) = Some (prev, b)"
    and r: "(if b \<noteq> pxEnd s then take_block L w prev b s else Some (NULL, s)) = Some (p, s')"
    by (auto simp: search_and_take_def split: option.splits)
  from aligned_first_fit [OF ff assms(2,3)] assms(2) have b: "aligned b"
    by (simp add: cells_aligned_read)
  show ?thesis
  proof (cases "b = pxEnd s")
    case True
    with r assms show ?thesis by (auto simp: NULL_def)
  next
    case False
    with r have "take_block L w prev b s = Some (p, s')" by simp
    from cells_aligned_take_block [OF this assms(2,3) b assms(4)] show ?thesis .
  qed
qed

lemma cells_aligned_pvPortMalloc:
  assumes "pvPortMalloc L n s = Some (p, s')" "cells_aligned s" "aligned (xStart L)"
  shows "cells_aligned s' \<and> aligned p"
proof -
  let ?s0 = "if pxEnd s = NULL then prvHeapInit L s else s"
  have "cells_aligned ?s0"
    using assms(2) by (simp add: cells_aligned_prvHeapInit)
  from cells_aligned_search_and_take [OF _ this assms(3) aligned_adjusted_size] assms(1)
  show ?thesis by (simp add: pvPortMalloc_def)
qed

lemma cells_aligned_release_block:
  assumes "release_block L pv b s = Some s'" "cells_aligned s" "aligned (xStart L)" "aligned b"
  shows "cells_aligned s'"
proof -
  define s2 where
    "s2 = memset_zero pv (xBlockSize (heapFREE_BLOCK b s) b - xHeapStructSize) (heapFREE_BLOCK b s)"
  define s3 where "s3 = s2\<lparr>xFreeBytesRemaining := xFreeBytesRemaining s2 + xBlockSize s2 b\<rparr>"
  from assms(1) obtain s4 where s4: "prvInsertBlockIntoFreeList L b s3 = Some s4"
    and s': "s' = s4\<lparr>xNumberOfSuccessfulFrees := xNumberOfSuccessfulFrees s4 + 1\<rparr>"
    by (auto simp: release_block_def s3_def s2_def Let_def split: option.splits)
  have "cells_aligned s3"
    using assms(2)
    by (simp add: s3_def s2_def cells_aligned_counters cells_aligned_memset_zero
        cells_aligned_heapFREE_BLOCK)
  from cells_aligned_prvInsertBlockIntoFreeList [OF s4 this assms(3,4)] show ?thesis
    by (simp add: s' cells_aligned_counters)
qed

lemma cells_aligned_vPortFree:
  assumes "vPortFree L pv s = Some (Inr s')" "cells_aligned s" "aligned (xStart L)" "aligned pv"
  shows "cells_aligned s'"
proof (cases "pv = NULL")
  case True
  with assms show ?thesis by (simp add: vPortFree_def)
next
  case False
  with assms(1) have "release_block L pv (pv - xHeapStructSize) s = Some s'"
    by (auto simp: vPortFree_def Let_def split: if_splits)
  from cells_aligned_release_block [OF this assms(2,3)] assms(4) show ?thesis
    by (simp add: aligned_diff)
qed

lemma cells_aligned_run:
  "run L cs (s, ps) = Some (Inr (s', ps')) \<Longrightarrow> aligned (xStart L) \<Longrightarrow> cells_aligned s \<Longrightarrow>
     \<forall>p\<in>set ps. aligned p \<Longrightarrow> cells_aligned s' \<and> (\<forall>p\<in>set ps'. aligned p)"
proof (induction cs arbitrary: s ps)
  case Nil
  then show ?case by simp
next
  case (Cons c cs)
  show ?case
  proof (cases c)
    case (Malloc n)
    with Cons.prems(1) obtain p s1 where m: "pvPortMalloc L n s = Some (p, s1)"
      and r: "run L cs (s1, ps @ [p]) = Some (Inr (s', ps'))"
      by (auto split: option.splits)
    from cells_aligned_pvPortMalloc [OF m Cons.prems(3,2)] Cons.prems(4)
    have "cells_aligned s1" "\<forall>q\<in>set (ps @ [p]). aligned q"
      by simp_all
    from Cons.IH [OF r Cons.prems(2) this] show ?thesis .
  next
    case (Free k)
    let ?pv = "if k < length ps then ps ! k else NULL"
    from Free Cons.prems(1) obtain s1 where f: "vPortFree L ?pv s = Some (Inr s1)"
      and r: "run L cs (s1, ps) = Some (Inr (s', ps'))"
      by (auto split: option.splits sum.splits)
    have "aligned ?pv"
      using Cons.prems(4) by (simp add: NULL_def)
    from cells_aligned_vPortFree [OF f Cons.prems(3,2) this]
    have "cells_aligned s1" .
    from Cons.IH [OF r Cons.prems(2) this Cons.prems(4)] show ?thesis .
  qed
qed

lemma cells_aligned_initial_heap: "cells_aligned initial_heap"
  by (simp add: cells_aligned_def initial_heap_def NULL_def)

text \<open>
  As long as only the allocator writes to memory, alignment is kept: whatever sequence of
  calls runs from the start of the program, every pointer \<open>pvPortMalloc\<close> has returned is
  a multiple of \<open>portBYTE_ALIGNMENT\<close>, and the size field at every address, with the
  allocation flag masked out, is a multiple of \<open>portBYTE_ALIGNMENT\<close>.  The object
  \<open>xStart\<close> is aligned as any \<open>BlockLink_t\<close> is.
\<close>

lemma allocator_keeps_alignment:
  assumes "xStart L AND portBYTE_ALIGNMENT_MASK = 0"
    and "run L cs (initial_heap, []) = Some (Inr (s, ps))"
  shows "(\<forall>p\<in>set ps. unat p mod unat portBYTE_ALIGNMENT = 0) \<and>
    (\<forall>b. unat (xBlockSize s b AND NOT heapBLOCK_ALLOCATED_BITMASK) mod unat portBYTE_ALIGNMENT = 0)"
proof -
  from assms(1) have x: "aligned (xStart L)" by (simp add: aligned_def)
  from cells_aligned_run [OF assms(2) x cells_aligned_initial_heap]
  have s: "cells_aligned s" and ps: "\<forall>p\<in>set ps. aligned p" by simp_all
  have "aligned (xBlockSize s b AND NOT heapBLOCK_ALLOCATED_BITMASK)" for b
    using s by (simp add: aligned_and_not_flag cells_aligned_read)
  with ps show ?thesis
    by (simp add: aligned_iff_dvd portBYTE_ALIGNMENT_def mod_eq_0_iff_dvd)
qed

text \<open>
  Claim C5 asks that every pointer \<open>pvPortMalloc\<close> returns is a multiple of 8 and that,
  after every call, every block's size is.  The client writes to the memory it asked for,
  and after a request that wraps around (claim C1) that memory is not its own:
  \<open>pvPortMalloc( 2^64 - 1 )\<close> returns \<open>0x10010\<close> for a block of 16 bytes, all of it
  header, so the first 16 bytes of the region the client asked for are the header of the
  free block behind it, link at \<open>0x10010\<close> and size at \<open>0x10018\<close>.  Two runs on the fresh
  arena of the example layout follow, each with one further \<open>pvPortMalloc( 1 )\<close>.

  In the first the client stores \<open>0x9FE5\<close> in the second word of its region.  The call
  returns \<open>0x10020\<close> and splits the free block: the remainder, at \<open>0x10028\<close> and first on
  the free list, has size \<open>0x9FCD\<close>, which is 5 modulo 8.

  In the second the client stores \<open>0x10024\<close> and 0 in the first two words of its region
  and 24 at offset 28.  The search passes the free block, whose size now reads 0, follows
  its link and stops at \<open>0x10024\<close>, where the size reads 24: the call returns
  \<open>0x10034\<close>, which is 4 modulo 8.  The two cells the search reads there, the link at
  \<open>0x10024\<close> and the size at \<open>0x1002C\<close>, overlap no byte that holds anything but 0 or
  the 24 the client stored, so the bytes of the target hold the same values.
\<close>

theorem wrapped_request_breaks_alignment:
  "(case pvPortMalloc example_layout 0xFFFFFFFFFFFFFFFF initial_heap of
      Some (p, s1) \<Rightarrow>
        p = 0x10010 \<and>
        (case pvPortMalloc example_layout 1 (client_store (p + 8) 0x9FE5 s1) of
           Some (q, s2) \<Rightarrow>
             q = 0x10020 \<and>
             pxNextFreeBlock s2 (xStart example_layout) = 0x10028 \<and>
             xBlockSize s2 0x10028 AND NOT heapBLOCK_ALLOCATED_BITMASK = 0x9FCD \<and>
             unat (xBlockSize s2 0x10028 AND NOT heapBLOCK_ALLOCATED_BITMASK)
               mod unat portBYTE_ALIGNMENT = 5
         | None \<Rightarrow> False) \<and>
        (case pvPortMalloc example_layout 1
                (client_store (p + 28) 24
                  (client_store (p + 8) 0 (client_store p 0x10024 s1))) of
           Some (q, s2) \<Rightarrow> q = 0x10034 \<and> unat q mod unat portBYTE_ALIGNMENT = 4
         | None \<Rightarrow> False)
    | None \<Rightarrow> False)"
  by (simp add: eval_simps client_store_def)

section \<open>Initialisation\<close>

text \<open>The start and the end of the usable arena, as \<open>prvHeapInit\<close> computes them.\<close>

lemma round_down_eq: "x AND NOT (mask 3) = x - (x AND mask 3)" for x :: "64 word"
proof -
  have "x - (x AND mask 3) = x AND NOT (x AND mask 3)"
    by (rule disjunctive_diff_eq_and_not) (simp add: and.assoc [symmetric])
  also have "\<dots> = x AND NOT (mask 3)"
    by (rule bit_eqI) (auto simp: bit_simps)
  finally show ?thesis by simp
qed


definition heap_start :: "layout \<Rightarrow> addr" where
  "heap_start L =
     (if ucHeap L AND portBYTE_ALIGNMENT_MASK \<noteq> 0
      then (ucHeap L + (portBYTE_ALIGNMENT - 1)) AND NOT portBYTE_ALIGNMENT_MASK
      else ucHeap L)"

definition heap_end :: "layout \<Rightarrow> addr" where
  "heap_end L =
     (heap_start L
        + (if ucHeap L AND portBYTE_ALIGNMENT_MASK \<noteq> 0
           then configTOTAL_HEAP_SIZE - (heap_start L - ucHeap L)
           else configTOTAL_HEAP_SIZE)
        - xHeapStructSize) AND NOT portBYTE_ALIGNMENT_MASK"


lemma heap_end_eq: "heap_end L = (ucHeap L + 40944) AND NOT (mask 3)"
proof -
  have m: "portBYTE_ALIGNMENT_MASK = mask 3"
    by (simp add: portBYTE_ALIGNMENT_MASK_7 mask_eq_exp_minus_1)
  have a: "heap_start L + (configTOTAL_HEAP_SIZE - (heap_start L - ucHeap L)) - xHeapStructSize
      = ucHeap L + 40944"
    by (simp add: configTOTAL_HEAP_SIZE_def xHeapStructSize_16)
  have b: "ucHeap L + configTOTAL_HEAP_SIZE - xHeapStructSize = ucHeap L + 40944"
    by (simp add: configTOTAL_HEAP_SIZE_def xHeapStructSize_16)
  show ?thesis
  proof (cases "ucHeap L AND portBYTE_ALIGNMENT_MASK \<noteq> 0")
    case True
    then have h: "heap_end L =
      (heap_start L + (configTOTAL_HEAP_SIZE - (heap_start L - ucHeap L)) - xHeapStructSize)
        AND NOT portBYTE_ALIGNMENT_MASK"
      by (simp add: heap_end_def)
    show ?thesis by (simp only: h a m)
  next
    case False
    then have h: "heap_end L =
      (ucHeap L + configTOTAL_HEAP_SIZE - xHeapStructSize) AND NOT portBYTE_ALIGNMENT_MASK"
      by (simp add: heap_end_def heap_start_def)
    show ?thesis by (simp only: h b m)
  qed
qed


definition valid_layout :: "layout \<Rightarrow> bool" where
  "valid_layout L \<longleftrightarrow>
     0 < unat (ucHeap L) \<and> unat (ucHeap L) + unat configTOTAL_HEAP_SIZE < 2 ^ 63 \<and>
     0 < unat (xStart L) \<and> unat (xStart L) + unat sizeof_BlockLink_t \<le> 2 ^ 64 \<and>
     xStart L AND portBYTE_ALIGNMENT_MASK = 0 \<and>
     (unat (xStart L) + unat sizeof_BlockLink_t \<le> unat (ucHeap L) \<or>
      unat (ucHeap L) + unat configTOTAL_HEAP_SIZE \<le> unat (xStart L))"

lemma unat_and_mask3: "unat (x AND mask 3) = unat x mod 8" for x :: "64 word"
  by (simp add: take_bit_eq_mask [symmetric] unsigned_take_bit_eq take_bit_eq_mod unat_mod)

lemma unat_round_down: "unat (x AND NOT (mask 3)) = unat x - unat x mod 8" for x :: "64 word"
proof -
  have "x AND mask 3 \<le> x" by (rule word_and_le2)
  then have "unat (x - (x AND mask 3)) = unat x - unat (x AND mask 3)"
    by (rule unat_sub)
  then show ?thesis by (simp add: round_down_eq unat_and_mask3)
qed

lemma unat_heap_end:
  assumes "valid_layout L"
  shows "unat (heap_end L) = unat (ucHeap L) + 40944 - (unat (ucHeap L) + 40944) mod 8"
proof -
  from assms have "unat (ucHeap L) + 40944 < 2 ^ 64"
    by (simp add: valid_layout_def configTOTAL_HEAP_SIZE_def)
  then have "unat (ucHeap L + 40944) = unat (ucHeap L) + 40944"
    by (simp add: unat_add_lem [THEN iffD1])
  then show ?thesis by (simp add: heap_end_eq unat_round_down)
qed

lemma round_up_nat:
  fixes n :: nat
  assumes "n mod 8 \<noteq> 0"
  shows "n + 7 - (n + 7) mod 8 = n + 8 - n mod 8"
proof -
  define r where "r = n mod 8"
  have r: "0 < r" "r < 8" using assms by (simp_all add: r_def)
  have "(n + 7) mod 8 = (r + 7) mod 8"
    unfolding r_def by (simp add: mod_add_left_eq)
  also have "\<dots> = r - 1"
  proof -
    from r have "r + 7 = 8 + (r - 1)" by simp
    then have "(r + 7) mod 8 = (r - 1) mod 8" by (metis mod_add_self1)
    with r show ?thesis by simp
  qed
  finally have "(n + 7) mod 8 = r - 1" .
  moreover have "r \<le> n" unfolding r_def by simp
  ultimately show ?thesis using r by (simp add: r_def [symmetric])
qed

lemma aligned_iff_mod: "x AND portBYTE_ALIGNMENT_MASK = 0 \<longleftrightarrow> unat x mod 8 = 0"
  using aligned_iff_dvd [of x] by (simp add: aligned_def dvd_eq_mod_eq_0)

lemma unat_heap_start:
  assumes "valid_layout L"
  shows "unat (heap_start L) =
    (if unat (ucHeap L) mod 8 = 0 then unat (ucHeap L)
     else unat (ucHeap L) + 8 - unat (ucHeap L) mod 8)"
proof (cases "unat (ucHeap L) mod 8 = 0")
  case True
  then show ?thesis by (simp add: heap_start_def aligned_iff_mod)
next
  case False
  have m: "portBYTE_ALIGNMENT_MASK = mask 3"
    by (simp add: portBYTE_ALIGNMENT_MASK_7 mask_eq_exp_minus_1)
  from assms have "unat (ucHeap L) + 7 < 2 ^ 64"
    by (simp add: valid_layout_def configTOTAL_HEAP_SIZE_def)
  then have "unat (ucHeap L + 7) = unat (ucHeap L) + 7"
    by (simp add: unat_add_lem [THEN iffD1])
  then have "unat ((ucHeap L + 7) AND NOT (mask 3))
      = unat (ucHeap L) + 7 - (unat (ucHeap L) + 7) mod 8"
    by (simp add: unat_round_down)
  also from False have "\<dots> = unat (ucHeap L) + 8 - unat (ucHeap L) mod 8"
    by (rule round_up_nat)
  finally have "unat ((ucHeap L + 7) AND NOT (mask 3))
      = unat (ucHeap L) + 8 - unat (ucHeap L) mod 8" .
  moreover from False have "heap_start L = (ucHeap L + 7) AND NOT (mask 3)"
    by (simp add: heap_start_def aligned_iff_mod portBYTE_ALIGNMENT_def m [symmetric])
  ultimately show ?thesis using False by simp
qed


subsection \<open>The allocation flag\<close>

text \<open>The flag is bit 63: a size or an address below \<open>2^63\<close> does not carry it.\<close>

lemma flag_bit: "heapBLOCK_ALLOCATED_BITMASK = 2 ^ 63"
  by (simp add: heapBLOCK_ALLOCATED_BITMASK_def)

lemma bit63_iff: "bit x 63 \<longleftrightarrow> 2 ^ 63 \<le> unat x" for x :: "64 word"
proof -
  have "bit x 63 \<longleftrightarrow> bit (unat x) 63"
    by (simp add: bit_unsigned_iff)
  also have "\<dots> \<longleftrightarrow> odd (unat x div 2 ^ 63)"
    by (rule bit_iff_odd)
  also have "\<dots> \<longleftrightarrow> 2 ^ 63 \<le> unat x"
  proof -
    have "unat x < 2 ^ 64" using unsigned_less [of x] by simp
    then have "unat x div 2 ^ 63 < 2"
      by (simp add: less_mult_imp_div_less)
    then have "unat x div 2 ^ 63 = 0 \<or> unat x div 2 ^ 63 = 1" by linarith
    moreover have "unat x div 2 ^ 63 = 0 \<longleftrightarrow> unat x < 2 ^ 63"
      by (simp add: div_eq_0_iff)
    ultimately show ?thesis by (auto simp: not_le)
  qed
  finally show ?thesis .
qed

lemma flag_clear_iff:
  "x AND heapBLOCK_ALLOCATED_BITMASK = 0 \<longleftrightarrow> unat x < 2 ^ 63" for x :: "64 word"
  unfolding flag_bit and_exp_eq_0_iff_not_bit bit63_iff by (simp add: not_le)

lemma or_flag_and_not:
  assumes "x AND heapBLOCK_ALLOCATED_BITMASK = 0"
  shows "(x OR heapBLOCK_ALLOCATED_BITMASK) AND NOT heapBLOCK_ALLOCATED_BITMASK = x"
proof -
  have "(x OR heapBLOCK_ALLOCATED_BITMASK) AND NOT heapBLOCK_ALLOCATED_BITMASK
      = x AND NOT heapBLOCK_ALLOCATED_BITMASK"
    by (simp add: word_ao_dist)
  also have "\<dots> = (x AND heapBLOCK_ALLOCATED_BITMASK) OR (x AND NOT heapBLOCK_ALLOCATED_BITMASK)"
    using assms by simp
  also have "\<dots> = x AND (heapBLOCK_ALLOCATED_BITMASK OR NOT heapBLOCK_ALLOCATED_BITMASK)"
    by (simp only: word_ao_dist2)
  also have "\<dots> = x" by simp
  finally show ?thesis .
qed

lemma or_flag_set: "(x OR heapBLOCK_ALLOCATED_BITMASK) AND heapBLOCK_ALLOCATED_BITMASK \<noteq> 0"
proof -
  have "(x OR heapBLOCK_ALLOCATED_BITMASK) AND heapBLOCK_ALLOCATED_BITMASK
      = heapBLOCK_ALLOCATED_BITMASK"
    by (simp add: word_ao_absorbs)
  then show ?thesis by (simp add: heapBLOCK_ALLOCATED_BITMASK_val)
qed

subsection \<open>Blocks of the arena\<close>

text \<open>
  A block is a start address and a size in bytes, header included.  It occupies the
  addresses from \<open>blk_lo\<close> up to, not including, \<open>blk_hi\<close>.  A block \<open>in_arena\<close> lies
  between the aligned start of the arena and the end sentinel, is aligned and has room for
  its header.

  \<open>free_chain m x bs e\<close>: in the memory \<open>m\<close> the links lead from the node at \<open>x\<close> through
  the headers of the blocks \<open>bs\<close>, in this order and with these sizes, to the node at \<open>e\<close>.
\<close>

type_synonym block = "addr \<times> size_t"

definition blk_lo :: "block \<Rightarrow> nat" where
  "blk_lo b = unat (fst b)"

definition blk_hi :: "block \<Rightarrow> nat" where
  "blk_hi b = unat (fst b) + unat (snd b)"

definition before :: "block \<Rightarrow> block \<Rightarrow> bool" where
  "before a b \<longleftrightarrow> blk_hi a < blk_lo b"

definition apart :: "block \<Rightarrow> block \<Rightarrow> bool" where
  "apart a b \<longleftrightarrow> blk_hi a \<le> blk_lo b \<or> blk_hi b \<le> blk_lo a"

definition in_arena :: "layout \<Rightarrow> block \<Rightarrow> bool" where
  "in_arena L b \<longleftrightarrow>
     unat (heap_start L) \<le> blk_lo b \<and> blk_hi b \<le> unat (heap_end L) \<and>
     16 \<le> unat (snd b) \<and> aligned (fst b) \<and> aligned (snd b)"

definition inside :: "block \<Rightarrow> addr \<Rightarrow> bool" where
  "inside b c \<longleftrightarrow> blk_lo b \<le> unat c \<and> unat c < blk_hi b"

fun free_chain :: "(addr \<Rightarrow> 64 word) \<Rightarrow> addr \<Rightarrow> block list \<Rightarrow> addr \<Rightarrow> bool" where
  "free_chain m x [] e \<longleftrightarrow> m x = e"
| "free_chain m x (b # bs) e \<longleftrightarrow> m x = fst b \<and> m (fst b + 8) = snd b \<and> free_chain m (fst b) bs e"

subsection \<open>The layout in numbers\<close>

lemma unat_heap_size:
  assumes "valid_layout L"
  shows "unat (heap_end L)
    = unat (heap_start L) + (if unat (ucHeap L) mod 8 = 0 then 40944 else 40936)"
proof -
  define u where "u = unat (ucHeap L)"
  define r where "r = u mod 8"
  have r: "r < 8" "r \<le> u" by (simp_all add: r_def)
  have "(u + 40944) mod 8 = r"
    unfolding r_def by (simp add: mod_add_right_eq [symmetric, of u 40944 8])
  with unat_heap_end [OF assms] have e: "unat (heap_end L) = u + 40944 - r"
    by (simp add: u_def)
  from unat_heap_start [OF assms]
  have s: "unat (heap_start L) = (if r = 0 then u else u + 8 - r)"
    by (simp add: u_def r_def)
  show ?thesis
  proof (cases "r = 0")
    case True
    with e s show ?thesis by (simp add: u_def r_def)
  next
    case False
    with e s r have "unat (heap_end L) = unat (heap_start L) + 40936" by simp
    with False show ?thesis by (simp add: u_def r_def)
  qed
qed

lemma layout_bounds:
  assumes "valid_layout L"
  shows "0 < unat (heap_start L)" "unat (heap_start L) + 40936 \<le> unat (heap_end L)"
    "unat (heap_end L) + 16 < 2 ^ 63"
    "unat (ucHeap L) \<le> unat (heap_start L)"
    "unat (heap_end L) + 16 \<le> unat (ucHeap L) + 40960"
proof -
  let ?u = "unat (ucHeap L)"
  have r: "?u mod 8 < 8" by simp
  have le: "?u mod 8 \<le> ?u" by simp
  from assms have u: "0 < ?u" "?u + 40960 < 2 ^ 63"
    by (simp_all add: valid_layout_def configTOTAL_HEAP_SIZE_def)
  have s: "?u \<le> unat (heap_start L)" "unat (heap_start L) \<le> ?u + 8"
    using unat_heap_start [OF assms] r le by (auto split: if_splits)
  have e: "unat (heap_end L) \<le> ?u + 40944"
    using unat_heap_end [OF assms] by simp
  show "0 < unat (heap_start L)" using s u by linarith
  show "unat (heap_start L) + 40936 \<le> unat (heap_end L)"
    using unat_heap_size [OF assms] by (simp split: if_splits)
  show "unat (heap_end L) + 16 < 2 ^ 63" using e u by linarith
  show "?u \<le> unat (heap_start L)" by (rule s)
  show "unat (heap_end L) + 16 \<le> ?u + 40960" using e by linarith
qed

subsection \<open>Words and numbers\<close>

lemma unat_plus:
  "unat a + unat b < 2 ^ 64 \<Longrightarrow> unat (a + b) = unat a + unat b" for a b :: "64 word"
  by (simp add: unat_add_lem [THEN iffD1])

lemma unat_minus:
  "unat b \<le> unat a \<Longrightarrow> unat (a - b) = unat a - unat b" for a b :: "64 word"
  by (simp add: unat_sub word_le_nat_alt)

lemma word_eq_unat: "a = b \<longleftrightarrow> unat a = unat b" for a b :: "64 word"
  by (simp add: word_unat_eq_iff)

lemma in_arenaD:
  assumes "valid_layout L" "in_arena L b"
  shows "unat (heap_start L) \<le> blk_lo b" "blk_hi b \<le> unat (heap_end L)" "16 \<le> unat (snd b)"
    "blk_hi b < 2 ^ 63" "blk_lo b + 16 \<le> blk_hi b" "0 < blk_lo b"
    "aligned (fst b)" "aligned (snd b)"
  using assms layout_bounds [OF assms(1)]
  by (simp_all add: in_arena_def blk_lo_def blk_hi_def)

lemma block_unat:
  assumes "valid_layout L" "in_arena L b"
  shows "unat (fst b + snd b) = blk_hi b" "unat (fst b + 8) = blk_lo b + 8"
    "unat (fst b + 16) = blk_lo b + 16"
proof -
  from in_arenaD [OF assms] have h: "blk_hi b < 2 ^ 63" "blk_lo b + 16 \<le> blk_hi b" by simp_all
  have p: "(2::nat) ^ 63 < 2 ^ 64" by simp
  from h p have "unat (fst b) + unat (snd b) < 2 ^ 64"
    unfolding blk_hi_def by linarith
  then show "unat (fst b + snd b) = blk_hi b"
    by (simp add: unat_plus blk_hi_def)
  from h p have "unat (fst b) + unat (8 :: 64 word) < 2 ^ 64"
    unfolding blk_lo_def by simp
  then show "unat (fst b + 8) = blk_lo b + 8"
    using unat_plus [of "fst b" 8] by (simp add: blk_lo_def)
  from h p have "unat (fst b) + unat (16 :: 64 word) < 2 ^ 64"
    unfolding blk_lo_def by simp
  then show "unat (fst b + 16) = blk_lo b + 16"
    using unat_plus [of "fst b" 16] by (simp add: blk_lo_def)
qed

lemma unat_xStart:
  assumes "valid_layout L"
  shows "unat (xStart L + 8) = unat (xStart L) + 8"
proof -
  from assms have "unat (xStart L) + unat (8 :: 64 word) < 2 ^ 64"
    by (simp add: valid_layout_def sizeof_BlockLink_t_def)
  from unat_plus [OF this] show ?thesis by simp
qed

lemma unat_pxEnd:
  assumes "valid_layout L"
  shows "unat (heap_end L + 8) = unat (heap_end L) + 8"
proof -
  have p: "(2::nat) ^ 63 < 2 ^ 64" by simp
  from layout_bounds(3) [OF assms] p have "unat (heap_end L) + unat (8 :: 64 word) < 2 ^ 64"
    by simp
  from unat_plus [OF this] show ?thesis by simp
qed

subsection \<open>Cells of different owners are different\<close>

lemma hdr_inside:
  assumes "valid_layout L" "in_arena L b"
  shows "inside b (fst b)" "inside b (fst b + 8)"
  using in_arenaD(5) [OF assms] block_unat(2) [OF assms]
  by (simp_all add: inside_def blk_lo_def)

lemma inside_apart: "inside a c \<Longrightarrow> inside b c \<Longrightarrow> apart a b \<Longrightarrow> False"
  by (auto simp: inside_def apart_def)

lemma inside_not_xStart:
  assumes "valid_layout L" "in_arena L b" "inside b c"
  shows "c \<noteq> xStart L" "c \<noteq> xStart L + 8"
proof -
  from assms(3) in_arenaD(1,2) [OF assms(1,2)] layout_bounds(4,5) [OF assms(1)]
  have c: "unat (ucHeap L) \<le> unat c" "unat c < unat (ucHeap L) + 40960"
    by (simp_all add: inside_def)
  from assms(1) have "unat (xStart L) + 16 \<le> unat (ucHeap L)
      \<or> unat (ucHeap L) + 40960 \<le> unat (xStart L)"
    by (simp add: valid_layout_def sizeof_BlockLink_t_def configTOTAL_HEAP_SIZE_def)
  with c unat_xStart [OF assms(1)]
  have "unat c \<noteq> unat (xStart L)" "unat c \<noteq> unat (xStart L + 8)" by auto
  then show "c \<noteq> xStart L" "c \<noteq> xStart L + 8" by auto
qed

lemma inside_not_pxEnd:
  assumes "valid_layout L" "in_arena L b" "inside b c"
  shows "c \<noteq> heap_end L" "c \<noteq> heap_end L + 8"
proof -
  from assms(3) in_arenaD(2) [OF assms(1,2)] have "unat c < unat (heap_end L)"
    by (simp add: inside_def)
  with unat_pxEnd [OF assms(1)]
  have "unat c \<noteq> unat (heap_end L)" "unat c \<noteq> unat (heap_end L + 8)" by auto
  then show "c \<noteq> heap_end L" "c \<noteq> heap_end L + 8" by auto
qed

lemma xStart_not_pxEnd:
  assumes "valid_layout L"
  shows "xStart L \<noteq> heap_end L" "xStart L \<noteq> heap_end L + 8"
    "xStart L + 8 \<noteq> heap_end L" "xStart L + 8 \<noteq> heap_end L + 8"
proof -
  from layout_bounds [OF assms]
  have e: "unat (ucHeap L) \<le> unat (heap_end L)" "unat (heap_end L) + 16 \<le> unat (ucHeap L) + 40960"
    by linarith+
  from assms have "unat (xStart L) + 16 \<le> unat (ucHeap L)
      \<or> unat (ucHeap L) + 40960 \<le> unat (xStart L)"
    by (simp add: valid_layout_def sizeof_BlockLink_t_def configTOTAL_HEAP_SIZE_def)
  with e unat_xStart [OF assms] unat_pxEnd [OF assms]
  have "unat (xStart L) \<noteq> unat (heap_end L)" "unat (xStart L) \<noteq> unat (heap_end L + 8)"
    "unat (xStart L + 8) \<noteq> unat (heap_end L)" "unat (xStart L + 8) \<noteq> unat (heap_end L + 8)"
    by auto
  then show "xStart L \<noteq> heap_end L" "xStart L \<noteq> heap_end L + 8"
    "xStart L + 8 \<noteq> heap_end L" "xStart L + 8 \<noteq> heap_end L + 8"
    by auto
qed

subsection \<open>The heap after prvHeapInit\<close>







subsection \<open>The four outcomes of an insertion\<close>

lemma insert_after_plain:
  assumes "mem s it = c" "mem s (it + 8) = zi" "mem s (blk + 8) = z"
    "it + zi \<noteq> blk" "blk + z = c \<longrightarrow> c = pxEnd s" "it \<noteq> blk"
  shows "insert_after it blk s = s\<lparr>mem := (mem s)(blk := c, it := blk)\<rparr>"
  using assms
  by (auto simp: insert_after_def merge_with_previous_def merge_with_next_def link_previous_def
      set_pxNextFreeBlock_def set_xBlockSize_def pxNextFreeBlock_def xBlockSize_def Let_def)

lemma insert_after_merge_next:
  assumes "mem s it = c" "mem s (it + 8) = zi" "mem s (blk + 8) = z"
    "mem s c = c'" "mem s (c + 8) = y"
    "it + zi \<noteq> blk" "blk + z = c" "c \<noteq> pxEnd s" "it \<noteq> blk" "it \<noteq> blk + 8" "c \<noteq> blk + 8"
  shows "insert_after it blk s = s\<lparr>mem := (mem s)(blk + 8 := z + y, blk := c', it := blk)\<rparr>"
  using assms
  by (auto simp: insert_after_def merge_with_previous_def merge_with_next_def link_previous_def
      set_pxNextFreeBlock_def set_xBlockSize_def pxNextFreeBlock_def xBlockSize_def Let_def)

lemma insert_after_merge_prev:
  assumes "mem s it = c" "mem s (it + 8) = zi" "mem s (blk + 8) = z"
    "it + zi = blk" "it + (zi + z) = c \<longrightarrow> c = pxEnd s" "blk \<noteq> it"
  shows "insert_after it blk s = s\<lparr>mem := (mem s)(it + 8 := zi + z)\<rparr>"
proof -
  have "(mem s)(it + 8 := zi + z, it := c) = (mem s)(it + 8 := zi + z)"
    using assms(1) by (auto simp: fun_eq_iff)
  with assms show ?thesis
    by (auto simp: insert_after_def merge_with_previous_def merge_with_next_def link_previous_def
      set_pxNextFreeBlock_def set_xBlockSize_def pxNextFreeBlock_def xBlockSize_def Let_def)
qed

lemma insert_after_merge_both:
  assumes "mem s it = c" "mem s (it + 8) = zi" "mem s (blk + 8) = z"
    "mem s c = c'" "mem s (c + 8) = y"
    "it + zi = blk" "it + (zi + z) = c" "c \<noteq> pxEnd s" "blk \<noteq> it" "c \<noteq> it" "c \<noteq> it + 8"
  shows "insert_after it blk s = s\<lparr>mem := (mem s)(it + 8 := zi + z + y, it := c')\<rparr>"
  using assms
  by (auto simp: insert_after_def merge_with_previous_def merge_with_next_def link_previous_def
      set_pxNextFreeBlock_def set_xBlockSize_def pxNextFreeBlock_def xBlockSize_def Let_def)

subsection \<open>The first call\<close>



lemma valid_example_layout: "valid_layout example_layout"
  by (simp add: valid_layout_def example_layout_def configTOTAL_HEAP_SIZE_def
      sizeof_BlockLink_t_def portBYTE_ALIGNMENT_MASK_7)

lemma example_heap_bounds:
  "heap_start example_layout = 0x10000" "heap_end example_layout = 0x19FF0"
  by (simp_all add: heap_start_def heap_end_def eval_simps)




section \<open>The free list\<close>

subsection \<open>The chain of free blocks\<close>

lemma free_chain_append:
  "free_chain m x (xs @ ys) e \<longleftrightarrow>
     free_chain m x xs (hd (map fst ys @ [e])) \<and> free_chain m (last (x # map fst xs)) ys e"
proof (induction xs arbitrary: x)
  case Nil
  show ?case by (cases ys) auto
next
  case (Cons b xs)
  then show ?case by auto
qed

lemma free_chain_next:
  "free_chain m x bs e \<Longrightarrow> m x = hd (map fst bs @ [e])"
  by (cases bs) auto

lemma free_chain_size:
  "free_chain m x bs e \<Longrightarrow> b \<in> set bs \<Longrightarrow> m (fst b + 8) = snd b"
  by (induction bs arbitrary: x) auto

subsection \<open>Where the two loops stop\<close>

lemma insert_position_chain:
  assumes "free_chain (mem s) x (xs @ ys) e" "\<forall>b\<in>set xs. fst b < blk"
    "\<not> hd (map fst ys @ [e]) < blk"
  shows "insert_position s blk x = Some (last (x # map fst xs))"
  using assms
proof (induction xs arbitrary: x)
  case Nil
  then have "pxNextFreeBlock s x = hd (map fst ys @ [e])"
    by (simp add: pxNextFreeBlock_def free_chain_next)
  with Nil show ?case by (simp add: insert_position_stop)
next
  case (Cons b xs)
  then have n: "pxNextFreeBlock s x = fst b" by (simp add: pxNextFreeBlock_def)
  with Cons.prems have "insert_position s blk x = insert_position s blk (fst b)"
    by (simp add: insert_position_step)
  also from Cons.prems have "\<dots> = Some (last (fst b # map fst xs))"
    by (intro Cons.IH) auto
  finally show ?case by simp
qed

subsection \<open>Frames\<close>

lemma sentinel_frame:
  assumes "valid_layout L"
    and "\<And>c. m' c \<noteq> m c \<Longrightarrow> c = xStart L \<or> (\<exists>b. in_arena L b \<and> inside b c)"
  shows "m' (xStart L + 8) = m (xStart L + 8)" "m' (heap_end L) = m (heap_end L)"
    "m' (heap_end L + 8) = m (heap_end L + 8)"
proof -
  have x: "xStart L + 8 \<noteq> xStart L" by simp
  show "m' (xStart L + 8) = m (xStart L + 8)"
    using assms(2) [of "xStart L + 8"] inside_not_xStart(2) [OF assms(1)] x by blast
  show "m' (heap_end L) = m (heap_end L)"
    using assms(2) [of "heap_end L"] inside_not_pxEnd(1) [OF assms(1)]
      xStart_not_pxEnd(1) [OF assms(1)] by metis
  show "m' (heap_end L + 8) = m (heap_end L + 8)"
    using assms(2) [of "heap_end L + 8"] inside_not_pxEnd(2) [OF assms(1)]
      xStart_not_pxEnd(2) [OF assms(1)] by metis
qed

lemma free_chain_frame:
  assumes "free_chain m x bs e" "valid_layout L" "\<forall>b\<in>set bs. in_arena L b"
    "m' x' = m x" "\<And>c b. b \<in> set bs \<Longrightarrow> inside b c \<Longrightarrow> m' c = m c"
  shows "free_chain m' x' bs e"
  using assms(1,3,4,5)
proof (induction bs arbitrary: x x')
  case Nil
  then show ?case by simp
next
  case (Cons b bs)
  from Cons.prems(2) have ib: "in_arena L b" by simp
  from hdr_inside [OF assms(2) ib] Cons.prems(4) [of b]
  have "m' (fst b) = m (fst b)" "m' (fst b + 8) = m (fst b + 8)" by simp_all
  moreover have "free_chain m' (fst b) bs e"
    using Cons.prems \<open>m' (fst b) = m (fst b)\<close> by (intro Cons.IH [of "fst b"]) auto
  ultimately show ?case using Cons.prems(1,3) by simp
qed

subsection \<open>Blocks in address order\<close>

lemma before_apart: "before a b \<Longrightarrow> apart a b"
  by (simp add: before_def apart_def)

lemma all_before_last:
  "sorted_wrt before xs \<Longrightarrow> xs \<noteq> [] \<Longrightarrow> blk_hi (last xs) < n \<Longrightarrow>
     \<forall>a\<in>set xs. blk_lo a \<le> blk_hi a \<Longrightarrow> \<forall>a\<in>set xs. blk_hi a < n"
proof (induction xs)
  case Nil
  then show ?case by simp
next
  case (Cons x xs)
  show ?case
  proof (cases "xs = []")
    case True
    with Cons.prems show ?thesis by simp
  next
    case False
    with Cons.prems have "\<forall>a\<in>set xs. blk_hi a < n"
      by (intro Cons.IH) auto
    from False have "last xs \<in> set xs" by simp
    with Cons.prems(1) have "before x (last xs)" by simp
    moreover from Cons.prems(4) \<open>last xs \<in> set xs\<close>
    have "blk_lo (last xs) \<le> blk_hi (last xs)" by simp
    moreover from Cons.prems(3) False have "blk_hi (last xs) < n" by simp
    ultimately have "blk_hi x < n" by (simp add: before_def)
    with \<open>\<forall>a\<in>set xs. blk_hi a < n\<close> show ?thesis by simp
  qed
qed

lemma all_after_hd:
  assumes "sorted_wrt before ys" "ys \<noteq> []" "n \<le> blk_lo (hd ys)"
    "\<forall>a\<in>set ys. blk_lo a \<le> blk_hi a"
  shows "\<forall>c\<in>set ys. n \<le> blk_lo c"
proof
  fix c assume c: "c \<in> set ys"
  from assms(2) obtain h t where ys: "ys = h # t" by (cases ys) auto
  show "n \<le> blk_lo c"
  proof (cases "c = h")
    case True
    with assms(3) ys show ?thesis by simp
  next
    case False
    with c ys assms(1) have "before h c" by auto
    moreover from assms(4) ys have "blk_lo h \<le> blk_hi h" by simp
    ultimately show ?thesis using assms(3) ys by (simp add: before_def)
  qed
qed

lemma sorted_before_mid:
  assumes "sorted_wrt before (xs @ ys)"
    "\<forall>a\<in>set xs. blk_hi a < blk_lo b" "\<forall>c\<in>set ys. blk_hi b < blk_lo c"
  shows "sorted_wrt before (xs @ b # ys)"
  using assms by (auto simp: sorted_wrt_append before_def)

text \<open>Splitting the free list at the block to insert.\<close>

lemma split_at_block:
  assumes "sorted_wrt before fl" "\<forall>b\<in>set fl. apart B b" "\<forall>b\<in>set fl. blk_lo b < blk_hi b"
    "blk_lo B < blk_hi B"
  defines "xs \<equiv> takeWhile (\<lambda>b. fst b < fst B) fl"
    and "ys \<equiv> dropWhile (\<lambda>b. fst b < fst B) fl"
  shows "fl = xs @ ys" "\<forall>a\<in>set xs. fst a < fst B" "\<forall>a\<in>set xs. blk_hi a \<le> blk_lo B"
    "\<forall>c\<in>set ys. blk_hi B \<le> blk_lo c" "ys \<noteq> [] \<longrightarrow> \<not> fst (hd ys) < fst B"
proof -
  show fl: "fl = xs @ ys" by (simp add: xs_def ys_def)
  show lt: "\<forall>a\<in>set xs. fst a < fst B"
    unfolding xs_def by (auto dest: set_takeWhileD)
  have sub: "set xs \<subseteq> set fl" "set ys \<subseteq> set fl"
    unfolding xs_def ys_def by (auto dest: set_takeWhileD set_dropWhileD)
  show "\<forall>a\<in>set xs. blk_hi a \<le> blk_lo B"
  proof
    fix a assume a: "a \<in> set xs"
    with lt have "blk_lo a < blk_lo B" by (simp add: blk_lo_def word_less_nat_alt)
    moreover from a sub assms(2,3) have "apart B a" "blk_lo a < blk_hi a" by auto
    ultimately show "blk_hi a \<le> blk_lo B" using assms(4) by (auto simp: apart_def)
  qed
  show hd: "ys \<noteq> [] \<longrightarrow> \<not> fst (hd ys) < fst B"
    unfolding ys_def using hd_dropWhile [of "\<lambda>b. fst b < fst B" fl] by blast
  show "\<forall>c\<in>set ys. blk_hi B \<le> blk_lo c"
  proof (cases "ys = []")
    case True
    then show ?thesis by simp
  next
    case False
    with hd have "blk_lo B \<le> blk_lo (hd ys)"
      by (simp add: blk_lo_def word_less_nat_alt not_less)
    moreover from assms(1) fl have "sorted_wrt before ys" by (simp add: sorted_wrt_append)
    moreover from sub assms(3) have "\<forall>a\<in>set ys. blk_lo a \<le> blk_hi a" by (auto intro: less_imp_le)
    ultimately have ge: "\<forall>c\<in>set ys. blk_lo B \<le> blk_lo c"
      using False by (intro all_after_hd) auto
    show ?thesis
    proof
      fix c assume c: "c \<in> set ys"
      with ge have "blk_lo B \<le> blk_lo c" by simp
      moreover from c sub assms(2,3) have "apart B c" "blk_lo c < blk_hi c" by auto
      ultimately show "blk_hi B \<le> blk_lo c" using assms(4) by (auto simp: apart_def)
    qed
  qed
qed

subsection \<open>The well-formed free list\<close>

text \<open>
  \<open>list_ok L s fl\<close>: the free list of the heap \<open>s\<close> holds the blocks \<open>fl\<close>.  The links lead
  from \<open>xStart\<close> through them to the end sentinel \<open>pxEnd\<close>, both sentinels have size 0 and
  the end sentinel's link is \<open>NULL\<close>; the blocks lie in the arena in address order, and
  between two of them there is a gap (\<open>before\<close> is strict: adjacent blocks are merged).
  \<open>inserted L s B fl s' fl'\<close> collects what the insertion of the block \<open>B\<close> achieves.
\<close>

definition list_ok :: "layout \<Rightarrow> heap \<Rightarrow> block list \<Rightarrow> bool" where
  "list_ok L s fl \<longleftrightarrow>
     pxEnd s = heap_end L \<and> mem s (xStart L + 8) = 0 \<and>
     mem s (heap_end L) = NULL \<and> mem s (heap_end L + 8) = 0 \<and>
     free_chain (mem s) (xStart L) fl (heap_end L) \<and>
     (\<forall>b\<in>set fl. in_arena L b) \<and> sorted_wrt before fl"

definition total_size :: "block list \<Rightarrow> nat" where
  "total_size bs = sum_list (map (\<lambda>b. unat (snd b)) bs)"

definition flagged :: "64 word \<Rightarrow> bool" where
  "flagged v \<longleftrightarrow> v AND heapBLOCK_ALLOCATED_BITMASK \<noteq> 0"

definition inserted :: "layout \<Rightarrow> heap \<Rightarrow> block \<Rightarrow> block list \<Rightarrow> heap \<Rightarrow> block list \<Rightarrow> bool" where
  "inserted L s B fl s' fl' \<longleftrightarrow>
     list_ok L s' fl' \<and> statics s' = statics s \<and> total_size fl' = total_size fl + unat (snd B) \<and>
     (\<forall>c. c \<noteq> xStart L \<longrightarrow> \<not> inside B c \<longrightarrow> (\<forall>b\<in>set fl. \<not> inside b c) \<longrightarrow> mem s' c = mem s c) \<and>
     (\<forall>a. blk_lo a < blk_hi a \<longrightarrow> apart a B \<longrightarrow> (\<forall>b\<in>set fl. apart a b) \<longrightarrow>
        (\<forall>b\<in>set fl'. apart a b)) \<and>
     (\<forall>c. flagged (mem s' c) \<longrightarrow> flagged (mem s c))"

lemma total_size_simps [simp]:
  "total_size [] = 0" "total_size (b # bs) = unat (snd b) + total_size bs" "total_size (xs @ ys) = total_size xs + total_size ys"
  by (simp_all add: total_size_def)

lemma not_flagged: "unat v < 2 ^ 63 \<Longrightarrow> \<not> flagged v"
  by (simp add: flagged_def flag_clear_iff)

lemma free_chain_retarget:
  assumes "valid_layout L"
  shows "free_chain m x pre t \<Longrightarrow> \<forall>b\<in>set pre. in_arena L b \<Longrightarrow> sorted_wrt before pre \<Longrightarrow>
     \<forall>b\<in>set pre. \<not> inside b x \<Longrightarrow>
     free_chain (m(last (x # map fst pre) := t')) x pre t'"
proof (induction pre arbitrary: x)
  case Nil
  then show ?case by simp
next
  case (Cons b bs)
  let ?p = "last (fst b # map fst bs)"
  from Cons.prems(2) have ib: "in_arena L b" by simp
  from Cons.prems(3) have bb: "\<forall>c\<in>set bs. apart b c" by (auto intro: before_apart)
  have nb: "\<forall>c\<in>set bs. \<not> inside c (fst b)"
    using hdr_inside(1) [OF assms ib] bb inside_apart by blast
  from Cons.prems have ih: "free_chain (m(?p := t')) (fst b) bs t'"
    using nb by (intro Cons.IH) auto
  have p: "?p = fst b \<or> (\<exists>c\<in>set bs. ?p = fst c)"
  proof (cases "bs = []")
    case True
    then show ?thesis by simp
  next
    case False
    then have "last (map fst bs) \<in> set (map fst bs)" by (intro last_in_set) simp
    with False show ?thesis by auto
  qed
  have ins: "\<exists>c\<in>set (b # bs). inside c ?p"
    using p
  proof
    assume "?p = fst b"
    with hdr_inside(1) [OF assms ib] show ?thesis by simp
  next
    assume "\<exists>c\<in>set bs. ?p = fst c"
    then obtain c where c: "c \<in> set bs" "?p = fst c" by blast
    with Cons.prems(2) have "in_arena L c" by simp
    from hdr_inside(1) [OF assms this] c show ?thesis by auto
  qed
  with Cons.prems(4) have xp: "x \<noteq> ?p" by auto
  have bp: "fst b + 8 \<noteq> ?p"
  proof
    assume e: "fst b + 8 = ?p"
    from p show False
    proof
      assume "?p = fst b"
      with e show False by simp
    next
      assume "\<exists>c\<in>set bs. ?p = fst c"
      then obtain c where c: "c \<in> set bs" "?p = fst c" by blast
      with Cons.prems(2) have "inside c (fst c)" using hdr_inside(1) [OF assms] by simp
      moreover have "inside b (fst b + 8)" using hdr_inside(2) [OF assms ib] .
      ultimately show False using e c bb inside_apart by metis
    qed
  qed
  have lp: "last (x # map fst (b # bs)) = ?p" by simp
  have "free_chain (m(?p := t')) x (b # bs) t'"
    using Cons.prems(1) ih xp bp by (simp del: last.simps)
  then show ?case by (simp only: lp)
qed

lemma insertedD:
  assumes "inserted L s B fl s' fl'"
  shows "list_ok L s' fl'" "statics s' = statics s" "total_size fl' = total_size fl + unat (snd B)"
    "\<And>c. c \<noteq> xStart L \<Longrightarrow> \<not> inside B c \<Longrightarrow> \<forall>b\<in>set fl. \<not> inside b c
        \<Longrightarrow> mem s' c = mem s c"
    "\<And>a. blk_lo a < blk_hi a \<Longrightarrow> apart a B \<Longrightarrow> \<forall>b\<in>set fl. apart a b
        \<Longrightarrow> \<forall>b\<in>set fl'. apart a b"
    "\<And>c. flagged (mem s' c) \<Longrightarrow> flagged (mem s c)"
  using assms unfolding inserted_def by blast+

lemma list_ok_counters [simp]:
  "list_ok L (s\<lparr>xFreeBytesRemaining := f\<rparr>) fl = list_ok L s fl"
  "list_ok L (s\<lparr>xMinimumEverFreeBytesRemaining := f\<rparr>) fl = list_ok L s fl"
  "list_ok L (s\<lparr>xNumberOfSuccessfulAllocations := f\<rparr>) fl = list_ok L s fl"
  "list_ok L (s\<lparr>xNumberOfSuccessfulFrees := f\<rparr>) fl = list_ok L s fl"
  by (simp_all add: list_ok_def)

lemma list_ok_frame:
  assumes v: "valid_layout L" and ok: "list_ok L s fl" and pe: "pxEnd s' = pxEnd s"
    and A: "in_arena L A" and ap: "\<forall>b\<in>set fl. apart A b"
    and ch: "\<And>c. mem s' c \<noteq> mem s c \<Longrightarrow> inside A c"
  shows "list_ok L s' fl"
proof -
  from ok have chain: "free_chain (mem s) (xStart L) fl (heap_end L)"
    and arena: "\<forall>b\<in>set fl. in_arena L b"
    and sorted: "sorted_wrt before fl"
    and sent: "pxEnd s = heap_end L" "mem s (xStart L + 8) = 0" "mem s (heap_end L) = NULL"
      "mem s (heap_end L + 8) = 0"
    by (simp_all add: list_ok_def)
  have ch': "c = xStart L \<or> (\<exists>b. in_arena L b \<and> inside b c)" if "mem s' c \<noteq> mem s c" for c
    using ch [OF that] A by blast
  have "mem s' (xStart L + 8) = mem s (xStart L + 8)"
    by (rule sentinel_frame(1) [OF v]) (rule ch')
  moreover have "mem s' (heap_end L) = mem s (heap_end L)"
    by (rule sentinel_frame(2) [OF v]) (rule ch')
  moreover have "mem s' (heap_end L + 8) = mem s (heap_end L + 8)"
    by (rule sentinel_frame(3) [OF v]) (rule ch')
  moreover have "free_chain (mem s') (xStart L) fl (heap_end L)"
  proof (rule free_chain_frame [OF chain v arena])
    show "mem s' (xStart L) = mem s (xStart L)"
      using ch [of "xStart L"] inside_not_xStart(1) [OF v A] by blast
  next
    fix c b assume "b \<in> set fl" "inside b c"
    with ap have "\<not> inside A c" using inside_apart by blast
    with ch [of c] show "mem s' c = mem s c" by blast
  qed
  ultimately show ?thesis
    using sent arena sorted pe by (simp add: list_ok_def)
qed

subsection \<open>Inserting a block\<close>

text \<open>
  Every outcome of an insertion replaces a segment \<open>mid\<close> of the list, the neighbours the
  block is merged with, by one node \<open>N\<close>, the block or the merged block.
\<close>

lemma replace_mid:
  assumes v: "valid_layout L"
    and ok: "list_ok L s (pre @ mid @ post)"
    and N: "in_arena L N"
    and pre: "\<forall>a\<in>set pre. before a N"
    and post: "\<forall>c\<in>set post. before N c"
    and cov: "\<And>c. inside N c \<Longrightarrow> inside B c \<or> (\<exists>b\<in>set mid. inside b c)"
    and apt: "\<And>a. blk_lo a < blk_hi a \<Longrightarrow> apart a B \<Longrightarrow> \<forall>b\<in>set mid. apart a b \<Longrightarrow> apart a N"
    and tot: "unat (snd N) = unat (snd B) + total_size mid"
    and s': "s' = s\<lparr>mem := (mem s)(fst N + 8 := snd N,
                 fst N := hd (map fst post @ [heap_end L]),
                 last (xStart L # map fst pre) := fst N)\<rparr>"
  shows "inserted L s B (pre @ mid @ post) s' (pre @ N # post)"
proof -
  define M where "M = mem s"
  define n where "n = fst N"
  define t where "t = hd (map fst post @ [heap_end L])"
  define p where "p = last (xStart L # map fst pre)"
  define M1 where "M1 = M(n + 8 := snd N, n := t)"
  define M' where "M' = M1(p := n)"
  have ms': "mem s' = M'" by (simp add: s' M'_def M1_def M_def n_def t_def p_def)
  from ok have chain: "free_chain M (xStart L) (pre @ mid @ post) (heap_end L)"
    and arena: "\<forall>b\<in>set (pre @ mid @ post). in_arena L b"
    and sorted: "sorted_wrt before (pre @ mid @ post)"
    and sent: "pxEnd s = heap_end L" "M (xStart L + 8) = 0" "M (heap_end L) = NULL"
      "M (heap_end L + 8) = 0"
    by (simp_all add: list_ok_def M_def)
  from arena have a_pre: "\<forall>b\<in>set pre. in_arena L b" and a_post: "\<forall>b\<in>set post. in_arena L b"
    and a_mid: "\<forall>b\<in>set mid. in_arena L b"
    by auto
  have nN: "inside N n" "inside N (n + 8)"
    using hdr_inside [OF v N] by (simp_all add: n_def)
  text \<open>the link cell that is redirected\<close>
  have p_cases: "p = xStart L \<or> (\<exists>b\<in>set pre. p = fst b)"
  proof (cases "pre = []")
    case True
    then show ?thesis by (simp add: p_def)
  next
    case False
    then have "last (map fst pre) \<in> set (map fst pre)" by (intro last_in_set) simp
    with False show ?thesis by (auto simp: p_def)
  qed
  have p_out: "\<not> inside N p"
  proof
    assume i: "inside N p"
    from p_cases show False
    proof
      assume "p = xStart L"
      with inside_not_xStart(1) [OF v N i] show False by simp
    next
      assume "\<exists>b\<in>set pre. p = fst b"
      then obtain b where b: "b \<in> set pre" "p = fst b" by blast
      with a_pre have "inside b p" using hdr_inside(1) [OF v] by simp
      moreover from b pre have "apart b N" by (simp add: before_apart)
      ultimately show False using i inside_apart by blast
    qed
  qed
  with nN have pn: "p \<noteq> n" "p \<noteq> n + 8" by auto
  have p_post: "\<not> inside c p" if "c \<in> set post" for c
  proof
    assume i: "inside c p"
    from that a_post have ic: "in_arena L c" by simp
    from p_cases show False
    proof
      assume "p = xStart L"
      with inside_not_xStart(1) [OF v ic i] show False by simp
    next
      assume "\<exists>b\<in>set pre. p = fst b"
      then obtain b where b: "b \<in> set pre" "p = fst b" by blast
      with a_pre have "inside b p" using hdr_inside(1) [OF v] by simp
      moreover from b that sorted have "apart b c"
        by (auto simp: sorted_wrt_append intro: before_apart)
      ultimately show False using i inside_apart by blast
    qed
  qed
  have x_out: "\<not> inside b (xStart L)" if "in_arena L b" for b
    using inside_not_xStart(1) [OF v that] by blast
  text \<open>changed cells\<close>
  have changed: "c = n \<or> c = n + 8 \<or> c = p" if "M' c \<noteq> M c" for c
    using that by (auto simp: M'_def M1_def split: if_splits)
  have frame_not_N: "M' c = M c" if "\<not> inside N c" "c \<noteq> p" for c
    using that changed [of c] nN by auto
  text \<open>the chain\<close>
  from chain have c_pre: "free_chain M (xStart L) pre (hd (map fst (mid @ post) @ [heap_end L]))"
    and c_post: "free_chain M (last (xStart L # map fst (pre @ mid))) post (heap_end L)"
    using free_chain_append [of M "xStart L" pre "mid @ post" "heap_end L"]
      free_chain_append [of M "xStart L" "pre @ mid" post "heap_end L"]
    by simp_all
  from c_post have q: "M (last (xStart L # map fst (pre @ mid))) = t"
    by (simp add: free_chain_next t_def)
  have "free_chain M1 (xStart L) pre (hd (map fst (mid @ post) @ [heap_end L]))"
  proof (rule free_chain_frame [OF c_pre v a_pre])
    show "M1 (xStart L) = M (xStart L)"
      using nN x_out [OF N] by (auto simp: M1_def)
  next
    fix c b assume "b \<in> set pre" "inside b c"
    with pre have "\<not> inside N c" using inside_apart before_apart by blast
    with nN show "M1 c = M c" by (auto simp: M1_def)
  qed
  from free_chain_retarget [OF v this a_pre, of n] sorted a_pre x_out
  have c1: "free_chain M' (xStart L) pre n"
    by (simp add: M'_def p_def sorted_wrt_append)
  have c2: "free_chain M' n post (heap_end L)"
  proof (rule free_chain_frame [OF c_post v a_post])
    show "M' n = M (last (xStart L # map fst (pre @ mid)))"
      using pn q by (simp add: M'_def M1_def)
  next
    fix c b assume b: "b \<in> set post" "inside b c"
    with post have "\<not> inside N c" using inside_apart before_apart by blast
    moreover have "c \<noteq> p" using b p_post [of b] by blast
    ultimately show "M' c = M c" by (rule frame_not_N)
  qed
  have c3: "M' p = n" "M' (n + 8) = snd N"
    using pn by (simp_all add: M'_def M1_def)
  have chain': "free_chain M' (xStart L) (pre @ N # post) (heap_end L)"
    using c1 c2 c3 free_chain_append [of M' "xStart L" pre "N # post" "heap_end L"]
    by (simp add: n_def p_def)
  text \<open>the sentinels\<close>
  have ch_in: "c = xStart L \<or> (\<exists>b. in_arena L b \<and> inside b c)" if "M' c \<noteq> M c" for c
  proof -
    from changed [OF that] consider "c = n \<or> c = n + 8" | "c = p" by blast
    then show ?thesis
    proof cases
      case 1
      with nN N show ?thesis by blast
    next
      case 2
      from p_cases show ?thesis
      proof
        assume "p = xStart L"
        with 2 show ?thesis by simp
      next
        assume "\<exists>b\<in>set pre. p = fst b"
        then obtain b where b: "b \<in> set pre" "p = fst b" by blast
        with a_pre have "in_arena L b" by simp
        with hdr_inside(1) [OF v this] b 2 show ?thesis by blast
      qed
    qed
  qed
  have "M' (xStart L + 8) = M (xStart L + 8)"
    by (rule sentinel_frame(1) [OF v]) (rule ch_in)
  moreover have "M' (heap_end L) = M (heap_end L)"
    by (rule sentinel_frame(2) [OF v]) (rule ch_in)
  moreover have "M' (heap_end L + 8) = M (heap_end L + 8)"
    by (rule sentinel_frame(3) [OF v]) (rule ch_in)
  ultimately
  have sent': "M' (xStart L + 8) = 0" "M' (heap_end L) = NULL" "M' (heap_end L + 8) = 0"
    using sent by simp_all
  text \<open>order\<close>
  from sorted have "sorted_wrt before (pre @ post)"
    by (auto simp: sorted_wrt_append)
  with pre post have sorted': "sorted_wrt before (pre @ N # post)"
    by (intro sorted_before_mid) (auto simp: before_def)
  have pe: "pxEnd s' = heap_end L"
    using sent(1) by (simp add: s')
  have ok': "list_ok L s' (pre @ N # post)"
    unfolding list_ok_def ms' pe
    using sent' chain' sorted' a_pre a_post N by auto
  text \<open>the rest\<close>
  have st: "statics s' = statics s" by (simp add: s' statics_def)
  have tt: "total_size (pre @ N # post) = total_size (pre @ mid @ post) + unat (snd B)"
    using tot by simp
  have fr: "mem s' c = mem s c"
    if "c \<noteq> xStart L" "\<not> inside B c" "\<forall>b\<in>set (pre @ mid @ post). \<not> inside b c" for c
  proof -
    from that(2,3) cov [of c] have "\<not> inside N c" by auto
    moreover have "c \<noteq> p"
    proof
      assume cp: "c = p"
      from p_cases show False
      proof
        assume "p = xStart L"
        with cp that(1) show False by simp
      next
        assume "\<exists>b\<in>set pre. p = fst b"
        then obtain b where b: "b \<in> set pre" "p = fst b" by blast
        with a_pre have "in_arena L b" by simp
        from hdr_inside(1) [OF v this] b cp that(3) show False by auto
      qed
    qed
    ultimately show ?thesis using frame_not_N by (simp add: ms' M_def)
  qed
  have ap: "\<forall>b\<in>set (pre @ N # post). apart a b"
    if "blk_lo a < blk_hi a" "apart a B" "\<forall>b\<in>set (pre @ mid @ post). apart a b" for a
    using that apt [of a] by auto
  have fl: "flagged (mem s c)" if "flagged (mem s' c)" for c
  proof (rule ccontr)
    assume nf: "\<not> flagged (mem s c)"
    with that have "M' c \<noteq> M c" by (auto simp: ms' M_def)
    from changed [OF this] have "M' c = n \<or> M' c = snd N \<or> M' c = t"
      using pn by (auto simp: M'_def M1_def)
    moreover have "unat n < 2 ^ 63" "unat (snd N) < 2 ^ 63"
      using in_arenaD(4) [OF v N] by (simp_all add: blk_hi_def n_def)
    moreover have "unat t < 2 ^ 63"
    proof (cases post)
      case Nil
      with layout_bounds(3) [OF v] show ?thesis by (simp add: t_def)
    next
      case (Cons c cs)
      with a_post have "in_arena L c" by simp
      from in_arenaD(4) [OF v this] Cons show ?thesis by (simp add: t_def blk_hi_def)
    qed
    ultimately have "\<not> flagged (M' c)" using not_flagged by metis
    with that show False by (simp add: ms')
  qed
  show ?thesis
    unfolding inserted_def using ok' st tt fr ap fl by blast
qed

subsection \<open>Joining adjacent blocks\<close>

definition merged :: "block \<Rightarrow> block \<Rightarrow> block" where
  "merged a b = (fst a, snd a + snd b)"

lemma merged_arena:
  assumes v: "valid_layout L" and a: "in_arena L a" and b: "in_arena L b"
    and adj: "blk_hi a = blk_lo b"
  shows "in_arena L (merged a b)" "blk_lo (merged a b) = blk_lo a" "blk_hi (merged a b) = blk_hi b"
    "unat (snd (merged a b)) = unat (snd a) + unat (snd b)" "fst a + snd a = fst b"
proof -
  have p: "(2::nat) ^ 63 < 2 ^ 64" by simp
  from in_arenaD(4) [OF v b] adj
  have "unat (fst a) + unat (snd a) + unat (snd b) < 2 ^ 63"
    by (simp add: blk_hi_def blk_lo_def)
  with p have lt: "unat (snd a) + unat (snd b) < 2 ^ 64" by linarith
  then show sz: "unat (snd (merged a b)) = unat (snd a) + unat (snd b)"
    by (simp add: merged_def unat_plus)
  show lo: "blk_lo (merged a b) = blk_lo a" by (simp add: merged_def blk_lo_def)
  from sz adj show hi: "blk_hi (merged a b) = blk_hi b"
    by (simp add: merged_def blk_hi_def blk_lo_def)
  from in_arenaD(7,8) [OF v a] in_arenaD(8) [OF v b]
  have "aligned (fst (merged a b))" "aligned (snd (merged a b))"
    by (simp_all add: merged_def aligned_add)
  with in_arenaD(1,3) [OF v a] in_arenaD(2) [OF v b] lo hi sz show "in_arena L (merged a b)"
    by (simp add: in_arena_def)
  from block_unat(1) [OF v a] adj show "fst a + snd a = fst b"
    by (simp add: word_eq_unat blk_lo_def)
qed

lemma merged_inside:
  assumes "blk_lo (merged a b) = blk_lo a" "blk_hi (merged a b) = blk_hi b" "blk_hi a = blk_lo b"
    "inside (merged a b) c"
  shows "inside a c \<or> inside b c"
  using assms by (auto simp: inside_def)

lemma merged_apart:
  assumes "blk_lo (merged a b) = blk_lo a" "blk_hi (merged a b) = blk_hi b" "blk_hi a = blk_lo b"
    "blk_lo x < blk_hi x" "apart x a" "apart x b"
  shows "apart x (merged a b)"
  using assms by (auto simp: apart_def)

lemma all_after_hd_strict:
  assumes "sorted_wrt before ys" "ys \<noteq> []" "n < blk_lo (hd ys)"
    "\<forall>a\<in>set ys. blk_lo a \<le> blk_hi a"
  shows "\<forall>c\<in>set ys. n < blk_lo c"
proof -
  from all_after_hd [OF assms(1,2) _ assms(4), of "Suc n"] assms(3)
  show ?thesis by (auto simp: Suc_le_eq)
qed

subsection \<open>Inserting a block into a well-formed free list\<close>

lemma insert_block_position:
  assumes v: "valid_layout L" and ok: "list_ok L s fl" and B: "in_arena L B"
    and ap: "\<forall>b\<in>set fl. apart B b"
  shows "insert_position s (fst B) (xStart L)
    = Some (last (xStart L # map fst (takeWhile (\<lambda>b. fst b < fst B) fl)))"
proof -
  define e where "e = heap_end L"
  from ok have chain: "free_chain (mem s) (xStart L) fl e"
    and arena: "\<forall>b\<in>set fl. in_arena L b"
    and sorted: "sorted_wrt before fl"
    by (simp_all add: list_ok_def e_def)
  have nz: "blk_lo b < blk_hi b" if "in_arena L b" for b
    using in_arenaD(5) [OF v that] by simp
  from arena nz have nzfl: "\<forall>b\<in>set fl. blk_lo b < blk_hi b" by blast
  define xs where "xs = takeWhile (\<lambda>b. fst b < fst B) fl"
  define ys where "ys = dropWhile (\<lambda>b. fst b < fst B) fl"
  note sp = split_at_block [OF sorted ap nzfl nz [OF B], folded xs_def ys_def]
  have c_ge: "\<not> hd (map fst ys @ [e]) < fst B"
  proof (cases "ys = []")
    case True
    with in_arenaD(2) [OF v B] show ?thesis
      by (simp add: e_def word_less_nat_alt blk_hi_def)
  next
    case False
    with sp(5) show ?thesis by (cases ys) auto
  qed
  show ?thesis
    unfolding xs_def [symmetric]
    by (rule insert_position_chain [of s "xStart L" xs ys e "fst B"])
      (use chain sp c_ge in simp_all)
qed

lemma insert_block:
  assumes v: "valid_layout L" and ok: "list_ok L s fl" and B: "in_arena L B"
    and sz: "mem s (fst B + 8) = snd B"
    and ap: "\<forall>b\<in>set fl. apart B b"
  shows "\<exists>s' fl'. prvInsertBlockIntoFreeList L (fst B) s = Some s' \<and> inserted L s B fl s' fl'"
proof -
  define blk where "blk = fst B"
  define z where "z = snd B"
  define e where "e = heap_end L"
  from ok have chain: "free_chain (mem s) (xStart L) fl e"
    and arena: "\<forall>b\<in>set fl. in_arena L b"
    and sorted: "sorted_wrt before fl"
    and pe: "pxEnd s = e" and x8: "mem s (xStart L + 8) = 0"
    by (simp_all add: list_ok_def e_def)
  have nz: "blk_lo b < blk_hi b" if "in_arena L b" for b
    using in_arenaD(5) [OF v that] by simp
  from arena nz have nzfl: "\<forall>b\<in>set fl. blk_lo b < blk_hi b" by blast
  define xs where "xs = takeWhile (\<lambda>b. fst b < fst B) fl"
  define ys where "ys = dropWhile (\<lambda>b. fst b < fst B) fl"
  note sp = split_at_block [OF sorted ap nzfl nz [OF B], folded xs_def ys_def]
  define it where "it = last (xStart L # map fst xs)"
  define c where "c = hd (map fst ys @ [e])"
  from arena sp(1) have a_xs: "\<forall>b\<in>set xs. in_arena L b" and a_ys: "\<forall>b\<in>set ys. in_arena L b"
    by auto
  from sorted sp(1) have s_xs: "sorted_wrt before xs" and s_ys: "sorted_wrt before ys"
    by (simp_all add: sorted_wrt_append)
  have uB: "unat blk = blk_lo B" "unat (blk + z) = blk_hi B" "unat (blk + 8) = blk_lo B + 8"
    using block_unat [OF v B] by (simp_all add: blk_def z_def blk_lo_def)
  have iB: "inside B blk" "inside B (blk + 8)"
    using hdr_inside [OF v B] by (simp_all add: blk_def)
  have sz': "mem s (blk + 8) = z" using sz by (simp add: blk_def z_def)
  text \<open>where the search stops\<close>
  have c_ge: "\<not> c < blk"
  proof (cases "ys = []")
    case True
    with in_arenaD(2) [OF v B] uB show ?thesis
      by (simp add: c_def e_def word_less_nat_alt blk_hi_def blk_lo_def)
  next
    case False
    with sp(5) show ?thesis by (cases ys) (auto simp: c_def blk_def)
  qed
  have pos: "insert_position s blk (xStart L) = Some it"
    unfolding it_def
    by (rule insert_position_chain [of s "xStart L" xs ys e blk])
      (use chain sp c_ge in \<open>simp_all add: c_def blk_def\<close>)
  have ins: "prvInsertBlockIntoFreeList L (fst B) s = Some (insert_after it blk s)"
    by (simp add: prvInsertBlockIntoFreeList_def pos blk_def [symmetric])
  from chain sp(1) have cy: "free_chain (mem s) it ys e"
    by (simp add: free_chain_append it_def)
  have m_it: "mem s it = c" using cy by (simp add: free_chain_next c_def)
  define zi where "zi = mem s (it + 8)"
  have zi: "mem s (it + 8) = zi" by (simp add: zi_def)
  have it_nil: "it = xStart L" "zi = 0" if "xs = []"
    using that x8 by (simp_all add: it_def zi_def)
  have it_last: "it = fst (last xs)" "zi = snd (last xs)" "last xs \<in> set xs" if "xs \<noteq> []"
  proof -
    from that show l: "last xs \<in> set xs" by simp
    from that show i: "it = fst (last xs)" by (simp add: it_def last_map)
    from l sp(1) have "last xs \<in> set fl" by simp
    from free_chain_size [OF chain this] i show "zi = snd (last xs)" by (simp add: zi_def)
  qed
  have c_nil: "c = e" if "ys = []" using that by (simp add: c_def)
  have c_hd: "c = fst (hd ys)" "mem s c = hd (map fst (tl ys) @ [e])"
    "mem s (c + 8) = snd (hd ys)" "hd ys \<in> set ys" if "ys \<noteq> []"
  proof -
    from that obtain h t where ys: "ys = h # t" by (cases ys) auto
    with cy have "mem s (fst h + 8) = snd h" "free_chain (mem s) (fst h) t e" by simp_all
    with ys show "c = fst (hd ys)" "mem s c = hd (map fst (tl ys) @ [e])"
      "mem s (c + 8) = snd (hd ys)" "hd ys \<in> set ys"
      by (simp_all add: c_def free_chain_next)
  qed
  text \<open>the cells of the block are not cells of the list\<close>
  have it_out: "\<not> inside B it"
  proof (cases "xs = []")
    case True
    with inside_not_xStart(1) [OF v B] it_nil show ?thesis by blast
  next
    case False
    from it_last [OF False] a_xs have "inside (last xs) it"
      using hdr_inside(1) [OF v] by simp
    moreover from it_last(3) [OF False] sp(1) ap have "apart B (last xs)" by simp
    ultimately show ?thesis using inside_apart by blast
  qed
  with iB have it_ne: "it \<noteq> blk" "it \<noteq> blk + 8" by auto
  text \<open>when the block touches its neighbours\<close>
  define P where "P \<longleftrightarrow> xs \<noteq> [] \<and> blk_hi (last xs) = blk_lo B"
  define Q where "Q \<longleftrightarrow> ys \<noteq> [] \<and> blk_hi B = blk_lo (hd ys)"
  have prev_iff: "it + zi = blk \<longleftrightarrow> P"
  proof (cases "xs = []")
    case True
    with it_nil it_ne show ?thesis by (simp add: P_def)
  next
    case False
    from it_last [OF False] a_xs have "in_arena L (last xs)" by simp
    from block_unat(1) [OF v this] it_last(1,2) [OF False]
    have "unat (it + zi) = blk_hi (last xs)" by simp
    with uB(1) False show ?thesis
      by (simp add: word_eq_unat [of "it + zi" blk] P_def)
  qed
  have next_no: "w = c \<longrightarrow> c = pxEnd s" if "\<not> Q" "unat w = blk_hi B" for w
  proof (cases "ys = []")
    case True
    then show ?thesis by (simp add: c_nil pe)
  next
    case False
    with that c_hd(1) [OF False] have "unat w \<noteq> unat c" by (simp add: Q_def blk_lo_def)
    then show ?thesis by auto
  qed
  have next_yes: "w = c" "c \<noteq> pxEnd s" "c \<noteq> blk + 8" "c \<noteq> it" "c \<noteq> it + 8"
    if "Q" "unat w = blk_hi B" for w
  proof -
    from that have ne: "ys \<noteq> []" and adj: "blk_hi B = blk_lo (hd ys)" by (simp_all add: Q_def)
    from c_hd [OF ne] a_ys have h: "in_arena L (hd ys)" by simp
    from that(2) adj c_hd(1) [OF ne] have "unat w = unat c" by (simp add: blk_lo_def)
    then show "w = c" by (simp only: word_eq_unat)
    from hdr_inside(1) [OF v h] c_hd(1) [OF ne] have ic: "inside (hd ys) c" by simp
    from inside_not_pxEnd(1) [OF v h ic] show "c \<noteq> pxEnd s" by (simp add: pe e_def)
    from c_hd(4) [OF ne] sp(1) ap have "apart B (hd ys)" by simp
    with ic iB(2) show "c \<noteq> blk + 8" using inside_apart by blast
    have "\<not> inside (hd ys) it \<and> \<not> inside (hd ys) (it + 8)"
    proof (cases "xs = []")
      case True
      with inside_not_xStart [OF v h] it_nil show ?thesis by blast
    next
      case False
      from it_last [OF False] a_xs have l: "in_arena L (last xs)" by simp
      from it_last(3) [OF False] c_hd(4) [OF ne] sorted sp(1) have "apart (last xs) (hd ys)"
        by (auto simp: sorted_wrt_append intro: before_apart)
      with hdr_inside [OF v l] it_last(1) [OF False] show ?thesis
        using inside_apart by metis
    qed
    with ic show "c \<noteq> it" "c \<noteq> it + 8" by auto
  qed
  have strict_pre: "\<forall>a\<in>set xs. blk_hi a < blk_lo B" if "\<not> P"
  proof (cases "xs = []")
    case True
    then show ?thesis by simp
  next
    case False
    with that it_last(3) [OF False] sp(3) have "blk_hi (last xs) < blk_lo B"
      by (auto simp: P_def order.strict_iff_order)
    with s_xs False show ?thesis
      by (intro all_before_last) (use a_xs nz in \<open>auto intro: less_imp_le\<close>)
  qed
  have strict_post: "\<forall>c\<in>set ys. blk_hi B < blk_lo c" if "\<not> Q"
  proof (cases "ys = []")
    case True
    then show ?thesis by simp
  next
    case False
    with that c_hd(4) [OF False] sp(4) have "blk_hi B < blk_lo (hd ys)"
      by (auto simp: Q_def order.strict_iff_order)
    with s_ys False show ?thesis
      by (intro all_after_hd_strict) (use a_ys nz in \<open>auto intro: less_imp_le\<close>)
  qed
  text \<open>the neighbours, when there are any\<close>
  have pre_last: "xs = butlast xs @ [last xs]" "in_arena L (last xs)"
    "\<forall>a\<in>set (butlast xs). before a (last xs)"
    "mem s (last (xStart L # map fst (butlast xs))) = it"
    "last (xStart L # map fst (butlast xs)) \<noteq> it"
    "last (xStart L # map fst (butlast xs)) \<noteq> it + 8" if "xs \<noteq> []"
  proof -
    let ?p = "last (xStart L # map fst (butlast xs))"
    from that show x: "xs = butlast xs @ [last xs]" by simp
    from it_last [OF that] a_xs show l: "in_arena L (last xs)" by simp
    from s_xs x have sb: "sorted_wrt before (butlast xs @ [last xs])" by simp
    then show b: "\<forall>a\<in>set (butlast xs). before a (last xs)"
      by (simp add: sorted_wrt_append)
    from chain sp(1) x have "free_chain (mem s) (xStart L) (butlast xs @ last xs # ys) e"
      by (metis append.assoc append_Cons append_Nil)
    then have "free_chain (mem s) ?p (last xs # ys) e"
      by (simp add: free_chain_append)
    with it_last(1) [OF that] show "mem s ?p = it" by simp
    have "\<not> inside (last xs) ?p"
    proof (cases "butlast xs = []")
      case True
      with inside_not_xStart(1) [OF v l] show ?thesis by auto
    next
      case False
      then have "last (butlast xs) \<in> set (butlast xs)" by simp
      moreover from this have "last (butlast xs) \<in> set xs" by (rule in_set_butlastD)
      ultimately have q: "in_arena L (last (butlast xs))" "apart (last (butlast xs)) (last xs)"
        using a_xs b by (auto intro: before_apart)
      from False have pq: "?p = fst (last (butlast xs))" by (simp add: last_map)
      show ?thesis
        unfolding pq using inside_apart [OF hdr_inside(1) [OF v q(1)] _ q(2)] by blast
    qed
    with hdr_inside [OF v l] it_last(1) [OF that] show "?p \<noteq> it" "?p \<noteq> it + 8" by auto
  qed
  have post_hd: "ys = hd ys # tl ys" "in_arena L (hd ys)" "\<forall>c\<in>set (tl ys). before (hd ys) c"
    if "ys \<noteq> []"
  proof -
    from that show y: "ys = hd ys # tl ys" by simp
    from c_hd(4) [OF that] a_ys show "in_arena L (hd ys)" by simp
    from s_ys y have "sorted_wrt before (hd ys # tl ys)" by simp
    then show "\<forall>c\<in>set (tl ys). before (hd ys) c" by simp
  qed
  show ?thesis
  proof (cases P)
    case nP: False
    from nP prev_iff have np: "it + zi \<noteq> blk" by simp
    show ?thesis
    proof (cases Q)
      case nQ: False
      have eq: "insert_after it blk s = s\<lparr>mem := (mem s)(blk := c, it := blk)\<rparr>"
        by (rule insert_after_plain [OF m_it zi sz' np next_no [OF nQ uB(2)] it_ne(1)])
      have idem: "(mem s)(blk + 8 := z) = mem s" using sz' by (auto simp: fun_eq_iff)
      have "inserted L s B (xs @ [] @ ys) (insert_after it blk s) (xs @ B # ys)"
      proof (rule replace_mid [OF v _ B])
        show "list_ok L s (xs @ [] @ ys)" using ok sp(1) by simp
        show "\<forall>a\<in>set xs. before a B" using strict_pre [OF nP] by (simp add: before_def)
        show "\<forall>c\<in>set ys. before B c" using strict_post [OF nQ] by (simp add: before_def)
        show "unat (snd B) = unat (snd B) + total_size []" by simp
        show "insert_after it blk s = s\<lparr>mem := (mem s)(fst B + 8 := snd B,
            fst B := hd (map fst ys @ [heap_end L]), last (xStart L # map fst xs) := fst B)\<rparr>"
          using eq idem by (simp add: blk_def z_def c_def it_def e_def)
      qed simp_all
      with ins sp(1) show ?thesis by auto
    next
      case Q: True
      then have ne: "ys \<noteq> []" and adj: "blk_hi B = blk_lo (hd ys)" by (simp_all add: Q_def)
      define h where "h = hd ys"
      define N where "N = merged B h"
      note hh = post_hd [OF ne, folded h_def]
      note j = merged_arena [OF v B hh(2) adj [folded h_def], folded N_def]
      have fN: "fst N = blk" "snd N = z + snd h" by (simp_all add: N_def merged_def blk_def z_def)
      have eq: "insert_after it blk s
          = s\<lparr>mem := (mem s)(blk + 8 := z + snd h, blk := hd (map fst (tl ys) @ [e]), it := blk)\<rparr>"
        by (rule insert_after_merge_next [OF m_it zi sz' c_hd(2) [OF ne]
              c_hd(3) [OF ne, folded h_def] np next_yes(1,2) [OF Q uB(2)] it_ne
              next_yes(3) [OF Q uB(2)]])
      have "h # tl ys = ys" using ne by (simp add: h_def)
      with sp(1) have fl_h: "fl = xs @ [h] @ tl ys" by simp
      have "inserted L s B (xs @ [h] @ tl ys) (insert_after it blk s) (xs @ N # tl ys)"
      proof (rule replace_mid [OF v _ j(1)])
        show "list_ok L s (xs @ [h] @ tl ys)" using ok unfolding fl_h .
        show "\<forall>a\<in>set xs. before a N" using strict_pre [OF nP] j(2) by (simp add: before_def)
        show "\<forall>c\<in>set (tl ys). before N c" using hh(3) j(3) by (simp add: before_def)
        show "unat (snd N) = unat (snd B) + total_size [h]" using j(4) by simp
        show "insert_after it blk s = s\<lparr>mem := (mem s)(fst N + 8 := snd N,
            fst N := hd (map fst (tl ys) @ [heap_end L]), last (xStart L # map fst xs) := fst N)\<rparr>"
          using eq by (simp add: fN it_def e_def)
        show "inside B c' \<or> (\<exists>b\<in>set [h]. inside b c')" if "inside N c'" for c'
          using merged_inside [OF j(2,3) [unfolded N_def] adj [folded h_def] that [unfolded N_def]]
          by simp
        show "apart a N" if "blk_lo a < blk_hi a" "apart a B" "\<forall>b\<in>set [h]. apart a b" for a
          unfolding N_def
          by (rule merged_apart [OF j(2,3) [unfolded N_def] adj [folded h_def] that(1,2)])
            (use that(3) in simp)
      qed
      with ins show ?thesis unfolding fl_h by blast
    qed
  next
    case P: True
    then have nx: "xs \<noteq> []" and adjp: "blk_hi (last xs) = blk_lo B" by (simp_all add: P_def)
    define a where "a = last xs"
    define p where "p = last (xStart L # map fst (butlast xs))"
    note aa = pre_last [OF nx, folded a_def p_def]
    note ja = merged_arena [OF v aa(2) B adjp [folded a_def]]
    have bx: "butlast xs @ [a] = xs" using nx by (simp add: a_def)
    with sp(1) have fl_a: "fl = butlast xs @ [a] @ ys" by (metis append.assoc)
    have fa: "fst a = it" "snd a = zi" using it_last(1,2) [OF nx] by (simp_all add: a_def)
    from P prev_iff have pp: "it + zi = blk" by simp
    have u2: "unat (it + (zi + z)) = blk_hi B"
      using pp uB(2) by (simp add: add.assoc [symmetric])
    show ?thesis
    proof (cases Q)
      case nQ: False
      define N where "N = merged a B"
      note j = ja [folded N_def]
      have fN: "fst N = it" "snd N = zi + z" by (simp_all add: N_def merged_def fa z_def)
      have eq: "insert_after it blk s = s\<lparr>mem := (mem s)(it + 8 := zi + z)\<rparr>"
        by (rule insert_after_merge_prev [OF m_it zi sz' pp next_no [OF nQ u2] it_ne(1) [symmetric]])
      have fe: "(mem s)(it + 8 := zi + z, it := c, p := it) = (mem s)(it + 8 := zi + z)"
        using m_it aa(4,6) by (auto simp: fun_eq_iff)
      have "inserted L s B (butlast xs @ [a] @ ys) (insert_after it blk s) (butlast xs @ N # ys)"
      proof (rule replace_mid [OF v _ j(1)])
        show "list_ok L s (butlast xs @ [a] @ ys)" using ok unfolding fl_a .
        show "\<forall>b\<in>set (butlast xs). before b N" using aa(3) j(2) by (simp add: before_def)
        show "\<forall>c\<in>set ys. before N c" using strict_post [OF nQ] j(3) by (simp add: before_def)
        show "unat (snd N) = unat (snd B) + total_size [a]" using j(4) by simp
        show "insert_after it blk s = s\<lparr>mem := (mem s)(fst N + 8 := snd N,
            fst N := hd (map fst ys @ [heap_end L]),
            last (xStart L # map fst (butlast xs)) := fst N)\<rparr>"
          using eq fe by (simp add: fN c_def e_def p_def)
        show "inside B c' \<or> (\<exists>b\<in>set [a]. inside b c')" if "inside N c'" for c'
          using merged_inside [OF j(2,3) [unfolded N_def] adjp [folded a_def] that [unfolded N_def]]
          by auto
        show "apart x N" if "blk_lo x < blk_hi x" "apart x B" "\<forall>b\<in>set [a]. apart x b" for x
          unfolding N_def
          by (rule merged_apart [OF j(2,3) [unfolded N_def] adjp [folded a_def] that(1) _ that(2)])
            (use that(3) in simp)
      qed
      with ins show ?thesis unfolding fl_a by blast
    next
      case Q: True
      then have ne: "ys \<noteq> []" and adj: "blk_hi B = blk_lo (hd ys)" by (simp_all add: Q_def)
      define h where "h = hd ys"
      define M where "M = merged a B"
      define N where "N = merged M h"
      note hh = post_hd [OF ne, folded h_def]
      note jm = ja [folded M_def]
      have adj2: "blk_hi M = blk_lo h" using jm(3) adj by (simp add: h_def)
      note j = merged_arena [OF v jm(1) hh(2) adj2, folded N_def]
      have fN: "fst N = it" "snd N = zi + z + snd h"
        by (simp_all add: N_def M_def merged_def fa z_def)
      have eq: "insert_after it blk s
          = s\<lparr>mem := (mem s)(it + 8 := zi + z + snd h, it := hd (map fst (tl ys) @ [e]))\<rparr>"
        by (rule insert_after_merge_both [OF m_it zi sz' c_hd(2) [OF ne]
              c_hd(3) [OF ne, folded h_def] pp next_yes(1,2) [OF Q u2] it_ne(1) [symmetric]
              next_yes(4,5) [OF Q u2]])
      have fe: "(mem s)(it + 8 := v1, it := v2, p := it) = (mem s)(it + 8 := v1, it := v2)"
        for v1 v2
        using aa(4,5,6) by (auto simp: fun_eq_iff)
      have "h # tl ys = ys" using ne by (simp add: h_def)
      with fl_a have fl_ah: "fl = butlast xs @ [a, h] @ tl ys" by simp
      have "inserted L s B (butlast xs @ [a, h] @ tl ys) (insert_after it blk s)
          (butlast xs @ N # tl ys)"
      proof (rule replace_mid [OF v _ j(1)])
        show "list_ok L s (butlast xs @ [a, h] @ tl ys)" using ok unfolding fl_ah .
        show "\<forall>b\<in>set (butlast xs). before b N" using aa(3) j(2) jm(2)
          by (simp add: before_def)
        show "\<forall>c\<in>set (tl ys). before N c" using hh(3) j(3) by (simp add: before_def)
        show "unat (snd N) = unat (snd B) + total_size [a, h]" using j(4) jm(4) by simp
        show "insert_after it blk s = s\<lparr>mem := (mem s)(fst N + 8 := snd N,
            fst N := hd (map fst (tl ys) @ [heap_end L]),
            last (xStart L # map fst (butlast xs)) := fst N)\<rparr>"
          using eq fe by (simp add: fN e_def p_def)
        show "inside B c' \<or> (\<exists>b\<in>set [a, h]. inside b c')" if "inside N c'" for c'
        proof -
          from merged_inside [OF j(2,3) [unfolded N_def] adj2 that [unfolded N_def]]
          have "inside M c' \<or> inside h c'" .
          with merged_inside [OF jm(2,3) [unfolded M_def] adjp [folded a_def], of c']
          show ?thesis by (auto simp: M_def)
        qed
        show "apart x N" if "blk_lo x < blk_hi x" "apart x B" "\<forall>b\<in>set [a, h]. apart x b" for x
        proof -
          from that(3) have xa: "apart x a" and xh: "apart x h" by simp_all
          have "apart x M"
            unfolding M_def
            by (rule merged_apart [OF jm(2,3) [unfolded M_def] adjp [folded a_def] that(1) xa that(2)])
          then show ?thesis
            unfolding N_def
            by (rule merged_apart [OF j(2,3) [unfolded N_def] adj2 that(1) _ xh])
        qed
      qed
      with ins show ?thesis unfolding fl_ah by blast
    qed
  qed
qed

section \<open>What vPortFree changes\<close>

lemma mem_set_pxNextFreeBlock:
  "mem (set_pxNextFreeBlock p v s) a = (if a = p then v else mem s a)"
  by (simp add: set_pxNextFreeBlock_def)

lemma mem_set_xBlockSize:
  "mem (set_xBlockSize p v s) a = (if a = p + 8 then v else mem s a)"
  by (simp add: set_xBlockSize_def)

lemma mem_heapFREE_BLOCK:
  "a \<noteq> p + 8 \<Longrightarrow> mem (heapFREE_BLOCK p s) a = mem s a"
  by (simp add: heapFREE_BLOCK_def mem_set_xBlockSize)

lemma mem_memset_zero:
  "mem (memset_zero pv n s) a = (if a - pv < n then 0 else mem s a)"
  by (simp add: memset_zero_def)

lemma mem_merge_with_previous:
  "a \<noteq> it + 8 \<Longrightarrow> mem (snd (merge_with_previous it b s)) a = mem s a"
  by (simp add: merge_with_previous_def mem_set_xBlockSize)

lemma fst_merge_with_previous:
  "fst (merge_with_previous it b s) = it \<or> fst (merge_with_previous it b s) = b"
  by (simp add: merge_with_previous_def)

lemma mem_merge_with_next:
  "a \<noteq> b \<Longrightarrow> a \<noteq> b + 8 \<Longrightarrow> mem (merge_with_next it b s) a = mem s a"
  by (simp add: merge_with_next_def Let_def mem_set_xBlockSize mem_set_pxNextFreeBlock)

lemma mem_link_previous:
  "a \<noteq> it \<Longrightarrow> mem (link_previous it b s) a = mem s a"
  by (simp add: link_previous_def mem_set_pxNextFreeBlock)

lemma mem_insert_after:
  assumes "a \<noteq> it" "a \<noteq> it + 8" "a \<noteq> b" "a \<noteq> b + 8"
  shows "mem (insert_after it b s) a = mem s a"
proof -
  define blk where "blk = fst (merge_with_previous it b s)"
  define s1 where "s1 = snd (merge_with_previous it b s)"
  have blk: "a \<noteq> blk" "a \<noteq> blk + 8"
    using fst_merge_with_previous [of it b s] assms by (auto simp: blk_def)
  have "insert_after it b s = link_previous it blk (merge_with_next it blk s1)"
    by (simp add: insert_after_def split_beta blk_def s1_def)
  with blk assms show ?thesis
    by (simp add: mem_link_previous mem_merge_with_next s1_def mem_merge_with_previous)
qed

subsection \<open>Releasing an allocated block\<close>

text \<open>
  \<open>alloc_ok L s a\<close>: the block \<open>a\<close> is allocated in the heap \<open>s\<close>.  It lies in the arena, its
  link is \<open>NULL\<close> and its size field holds its size with the allocation flag set.
  \<open>before_insertion\<close> is the state in which \<open>vPortFree\<close> calls
  \<open>prvInsertBlockIntoFreeList\<close>: flag cleared, payload zeroed, free bytes counted.
\<close>

definition alloc_ok :: "layout \<Rightarrow> heap \<Rightarrow> block \<Rightarrow> bool" where
  "alloc_ok L s a \<longleftrightarrow>
     in_arena L a \<and> mem s (fst a) = NULL \<and>
     mem s (fst a + 8) = snd a OR heapBLOCK_ALLOCATED_BITMASK"

lemma memset_range:
  assumes v: "valid_layout L" and a: "in_arena L a" and c: "c - (fst a + 16) < snd a - 16"
  shows "inside a c" "c \<noteq> fst a" "c \<noteq> fst a + 8"
proof -
  have p: "(2::nat) ^ 63 < 2 ^ 64" by simp
  note d = in_arenaD [OF v a]
  note u = block_unat [OF v a]
  have n: "unat (snd a - 16) = unat (snd a) - 16"
    using unat_minus [of 16 "snd a"] d(3) by simp
  from c have lt: "unat (c - (fst a + 16)) < unat (snd a) - 16"
    by (simp add: word_less_nat_alt n)
  have ge: "blk_lo a + 16 \<le> unat c"
  proof (rule ccontr)
    assume "\<not> blk_lo a + 16 \<le> unat c"
    then have "unat (c - (fst a + 16)) = unat c + 2 ^ 64 - (blk_lo a + 16)"
      by (simp add: unat_sub_if' u(3))
    with lt d(4,5) p show False by (simp add: blk_hi_def)
  qed
  then have "unat (c - (fst a + 16)) = unat c - (blk_lo a + 16)"
    by (simp add: unat_sub_if' u(3))
  with lt ge show i: "inside a c" by (simp add: inside_def blk_hi_def blk_lo_def)
  from ge have "unat c \<noteq> unat (fst a)" "unat c \<noteq> unat (fst a + 8)"
    by (simp_all add: u(2) blk_lo_def)
  then show "c \<noteq> fst a" "c \<noteq> fst a + 8" by auto
qed

definition before_insertion :: "addr \<Rightarrow> addr \<Rightarrow> heap \<Rightarrow> heap" where
  "before_insertion pv pxLink s =
     (let s1 = heapFREE_BLOCK pxLink s;
          s2 = memset_zero pv (xBlockSize s1 pxLink - xHeapStructSize) s1
      in s2\<lparr>xFreeBytesRemaining := xFreeBytesRemaining s2 + xBlockSize s2 pxLink\<rparr>)"

lemma release_block_eq:
  "release_block L pv pxLink s =
     (case prvInsertBlockIntoFreeList L pxLink (before_insertion pv pxLink s) of
        None \<Rightarrow> None
      | Some s4 \<Rightarrow> Some (s4\<lparr>xNumberOfSuccessfulFrees := xNumberOfSuccessfulFrees s4 + 1\<rparr>))"
  by (simp add: release_block_def before_insertion_def Let_def)

lemma free_valid:
  assumes v: "valid_layout L" and lo: "list_ok L s fl" and a: "alloc_ok L s a"
    and ap: "\<forall>b\<in>set fl. apart a b"
  shows "\<exists>s' fl' it. vPortFree L (fst a + xHeapStructSize) s = Some (Inr s') \<and>
      list_ok L s' fl' \<and>
      insert_position s (fst a) (xStart L) = Some it \<and>
      insert_position (before_insertion (fst a + xHeapStructSize) (fst a) s) (fst a) (xStart L)
        = Some it \<and>
      it \<in> set (xStart L # map fst fl) \<and>
      (\<forall>c. mem s' c \<noteq> mem s c \<longrightarrow> inside a c \<or> c = it \<or> c = it + 8) \<and>
      \<not> flagged (mem s' (fst a + 8)) \<and>
      xFreeBytesRemaining s' = xFreeBytesRemaining s + snd a \<and>
      xNumberOfSuccessfulFrees s' = xNumberOfSuccessfulFrees s + 1 \<and>
      xMinimumEverFreeBytesRemaining s' = xMinimumEverFreeBytesRemaining s \<and>
      xNumberOfSuccessfulAllocations s' = xNumberOfSuccessfulAllocations s \<and>
      pxEnd s' = pxEnd s"
proof -
  define p where "p = fst a + 16"
  define it where "it = last (xStart L # map fst (takeWhile (\<lambda>b. fst b < fst a) fl))"
  from a have A: "in_arena L a" and nx: "mem s (fst a) = NULL"
    and sz: "mem s (fst a + 8) = snd a OR heapBLOCK_ALLOCATED_BITMASK"
    by (simp_all add: alloc_ok_def)
  note d = in_arenaD [OF v A]
  note u = block_unat [OF v A]
  note hA = hdr_inside [OF v A]
  have small: "unat (snd a) < 2 ^ 63" using d(4) by (simp add: blk_hi_def)
  then have clr: "snd a AND heapBLOCK_ALLOCATED_BITMASK = 0" by (simp add: flag_clear_iff)
  have pn: "p \<noteq> NULL"
  proof
    assume "p = NULL"
    then have "unat (fst a + 16) = 0" by (simp add: p_def NULL_def)
    with u(3) show False by simp
  qed
  have pl: "p - 16 = fst a" by (simp add: p_def)
  have s1: "heapFREE_BLOCK (fst a) s = s\<lparr>mem := (mem s)(fst a + 8 := snd a)\<rparr>"
    by (simp add: heapFREE_BLOCK_def set_xBlockSize_def xBlockSize_def sz or_flag_and_not [OF clr])
  define s3 where "s3 = before_insertion p (fst a) s"
  have keep: "\<not> fst a + 8 - p < snd a - 16"
    using memset_range(3) [OF v A, of "fst a + 8"] by (auto simp: p_def)
  have m3: "mem s3 c = (if c - p < snd a - 16 then 0 else if c = fst a + 8 then snd a
      else mem s c)" for c
    by (simp add: s3_def before_insertion_def Let_def s1 memset_zero_def xBlockSize_def
        xHeapStructSize_16)
  have st3: "pxEnd s3 = pxEnd s" "xFreeBytesRemaining s3 = xFreeBytesRemaining s + snd a"
    "xNumberOfSuccessfulFrees s3 = xNumberOfSuccessfulFrees s"
    "xMinimumEverFreeBytesRemaining s3 = xMinimumEverFreeBytesRemaining s"
    "xNumberOfSuccessfulAllocations s3 = xNumberOfSuccessfulAllocations s"
    using keep
    by (simp_all add: s3_def before_insertion_def Let_def s1 memset_zero_def xBlockSize_def
        xHeapStructSize_16)
  have ch3: "inside a c" if "mem s3 c \<noteq> mem s c" for c
  proof (cases "c - p < snd a - 16")
    case True
    then show ?thesis using memset_range(1) [OF v A, of c] by (simp add: p_def)
  next
    case False
    with that have "c = fst a + 8" by (simp add: m3 split: if_splits)
    with hA(2) show ?thesis by simp
  qed
  have lo3: "list_ok L s3 fl"
    by (rule list_ok_frame [OF v lo st3(1) A ap ch3])
  have sz3: "mem s3 (fst a + 8) = snd a" using keep by (simp add: m3)
  have pos: "insert_position s (fst a) (xStart L) = Some it"
    unfolding it_def by (rule insert_block_position [OF v lo A ap])
  have pos3: "insert_position s3 (fst a) (xStart L) = Some it"
    unfolding it_def by (rule insert_block_position [OF v lo3 A ap])
  define s4 where "s4 = insert_after it (fst a) s3"
  have ins: "prvInsertBlockIntoFreeList L (fst a) s3 = Some s4"
    by (simp add: prvInsertBlockIntoFreeList_def pos3 s4_def)
  from insert_block [OF v lo3 A sz3 ap] ins
  obtain fl' where i4: "inserted L s3 a fl s4 fl'" by auto
  note i = insertedD [OF i4]
  define s' where "s' = s4\<lparr>xNumberOfSuccessfulFrees := xNumberOfSuccessfulFrees s4 + 1\<rparr>"
  have "heapBLOCK_IS_ALLOCATED s (fst a)"
    unfolding heapBLOCK_IS_ALLOCATED_def xBlockSize_def sz by (rule or_flag_set)
  then have free: "vPortFree L (fst a + xHeapStructSize) s = Some (Inr s')"
    using pn nx
    by (simp add: vPortFree_def Let_def xHeapStructSize_16 p_def [symmetric] pl
        pxNextFreeBlock_def release_block_eq s3_def [symmetric] ins s'_def)
  have ms': "mem s' = mem s4" by (simp add: s'_def)
  have fr: "inside a c \<or> c = it \<or> c = it + 8" if "mem s' c \<noteq> mem s c" for c
  proof (rule ccontr)
    assume n: "\<not> (inside a c \<or> c = it \<or> c = it + 8)"
    with hA have "c \<noteq> fst a" "c \<noteq> fst a + 8" by auto
    with n have "mem s4 c = mem s3 c" by (simp add: s4_def mem_insert_after)
    moreover from n ch3 [of c] have "mem s3 c = mem s c" by blast
    ultimately show False using that by (simp add: ms')
  qed
  have nf: "\<not> flagged (mem s' (fst a + 8))"
  proof
    assume "flagged (mem s' (fst a + 8))"
    then have "flagged (mem s3 (fst a + 8))" using i(6) by (simp add: ms')
    with not_flagged [OF small] show False by (simp add: sz3)
  qed
  have it_in: "it \<in> set (xStart L # map fst fl)"
  proof -
    have "it \<in> set (xStart L # map fst (takeWhile (\<lambda>b. fst b < fst a) fl))"
      unfolding it_def by (rule last_in_set) simp
    then show ?thesis by (auto dest: set_takeWhileD)
  qed
  have cnt: "xFreeBytesRemaining s' = xFreeBytesRemaining s + snd a"
    "xNumberOfSuccessfulFrees s' = xNumberOfSuccessfulFrees s + 1"
    "xMinimumEverFreeBytesRemaining s' = xMinimumEverFreeBytesRemaining s"
    "xNumberOfSuccessfulAllocations s' = xNumberOfSuccessfulAllocations s"
    "pxEnd s' = pxEnd s"
    using statics_eqD [OF i(2)] st3 by (simp_all add: s'_def)
  have "list_ok L s' fl'" using i(1) by (simp add: s'_def)
  with free pos pos3 it_in fr nf cnt show ?thesis
    unfolding s3_def p_def xHeapStructSize_16 by blast
qed

lemma example_run_two_blocks:
  "\<exists>s. run example_layout [Malloc 10, Malloc 10, Free 0] (initial_heap, [])
      = Some (Inr (s, [0x10010, 0x10030])) \<and>
    xBlockSize s 0x10000 = 32 \<and> xBlockSize s 0x10020 = 0x8000000000000020 \<and>
    pxNextFreeBlock s 0x1000 = 0x10000 \<and> pxNextFreeBlock s 0x10000 = 0x10040 \<and>
    pxNextFreeBlock s 0x10040 = pxEnd s \<and>
    (\<exists>s'. vPortFree example_layout 0x10030 s = Some (Inr s') \<and>
       xBlockSize s' 0x10000 = 40944 \<and>
       pxNextFreeBlock s' 0x1000 = 0x10000 \<and> pxNextFreeBlock s' 0x10000 = pxEnd s')"
  by (simp add: eval_simps)

text \<open>
  Claim C10, as stated, lists the free-byte counter, the free counter, the freed block's
  header and payload and the free-list links as the only things \<open>vPortFree\<close> modifies.
  When the freed block is merged into the free block before it, the size field of that
  block changes too.  After two allocations of 10 bytes the first block (header at
  \<open>0x10000\<close>, size 32) is released; releasing the second (pointer \<open>0x10030\<close>, header at
  \<open>0x10020\<close>) then changes the size field of the block at \<open>0x10000\<close> from 32 to 40944,
  and that cell belongs neither to the freed block nor to a link: the links of the free
  list are the first cells of \<open>xStart\<close>, \<open>0x10000\<close> and \<open>0x10040\<close>.
\<close>

theorem vPortFree_changes_previous_size:
  "(case run example_layout [Malloc 10, Malloc 10, Free 0] (initial_heap, []) of
      Some (Inr (s, ps)) \<Rightarrow>
        ps = [0x10010, 0x10030] \<and>
        pxNextFreeBlock s (xStart example_layout) = 0x10000 \<and>
        pxNextFreeBlock s 0x10000 = 0x10040 \<and>
        pxNextFreeBlock s 0x10040 = pxEnd s \<and>
        xBlockSize s (0x10030 - xHeapStructSize) = 0x8000000000000020 \<and>
        xBlockSize s 0x10000 = 32 \<and>
        (case vPortFree example_layout 0x10030 s of
           Some (Inr s') \<Rightarrow>
             xBlockSize s' 0x10000 = 40944 \<and>
             pxNextFreeBlock s' (xStart example_layout) = 0x10000 \<and>
             pxNextFreeBlock s' 0x10000 = pxEnd s'
         | _ \<Rightarrow> False)
    | _ \<Rightarrow> False)"
proof -
  from example_run_two_blocks obtain s s' where
    "run example_layout [Malloc 10, Malloc 10, Free 0] (initial_heap, [])
      = Some (Inr (s, [0x10010, 0x10030]))"
    "xBlockSize s 0x10000 = 32" "xBlockSize s 0x10020 = 0x8000000000000020"
    "pxNextFreeBlock s 0x1000 = 0x10000" "pxNextFreeBlock s 0x10000 = 0x10040"
    "pxNextFreeBlock s 0x10040 = pxEnd s"
    "vPortFree example_layout 0x10030 s = Some (Inr s')"
    "xBlockSize s' 0x10000 = 40944"
    "pxNextFreeBlock s' 0x1000 = 0x10000" "pxNextFreeBlock s' 0x10000 = pxEnd s'"
    by blast
  then show ?thesis by (simp add: example_layout_def xHeapStructSize_16)
qed

text \<open>
  Claim C10, amended.  A valid allocated pointer points to the payload of an allocated
  block \<open>a\<close> of a heap whose free list is well formed, the block apart from every free
  block.  For such a pointer \<open>vPortFree\<close> returns.  The search of
  \<open>prvInsertBlockIntoFreeList\<close> stops at a node \<open>it\<close> of the free list, \<open>xStart\<close> or the
  header of a free block; it stops there on the heap as the call finds it and on the heap
  as it is when the insertion starts.  Every memory cell the call changes is a byte of the
  freed block, header or payload, or one of the two header cells of \<open>it\<close>, its link and
  its size.  The free-byte counter grows by the size of the block and the free counter by
  one; the watermark, the allocation counter and \<open>pxEnd\<close> are unchanged.
\<close>

theorem vPortFree_frame:
  assumes "valid_layout L" and "list_ok L s fl" and "alloc_ok L s a"
    and "\<forall>b\<in>set fl. apart a b"
  shows "\<exists>s' it. vPortFree L (fst a + xHeapStructSize) s = Some (Inr s') \<and>
      insert_position s (fst a) (xStart L) = Some it \<and>
      insert_position (before_insertion (fst a + xHeapStructSize) (fst a) s) (fst a) (xStart L)
        = Some it \<and>
      it \<in> set (xStart L # map fst fl) \<and>
      (\<forall>c. mem s' c \<noteq> mem s c \<longrightarrow> inside a c \<or> c = it \<or> c = it + 8) \<and>
      xFreeBytesRemaining s' = xFreeBytesRemaining s + snd a \<and>
      xNumberOfSuccessfulFrees s' = xNumberOfSuccessfulFrees s + 1 \<and>
      xMinimumEverFreeBytesRemaining s' = xMinimumEverFreeBytesRemaining s \<and>
      xNumberOfSuccessfulAllocations s' = xNumberOfSuccessfulAllocations s \<and>
      pxEnd s' = pxEnd s"
  using free_valid [OF assms] by blast

lemma example_two_blocks_cells:
  "\<exists>s s'. run example_layout [Malloc 10, Malloc 10, Free 0] (initial_heap, [])
      = Some (Inr (s, [0x10010, 0x10030])) \<and>
    pxEnd s = 0x19FF0 \<and> mem s 0x1000 = 0x10000 \<and> mem s 0x1008 = 0 \<and>
    mem s 0x10000 = 0x10040 \<and> mem s 0x10008 = 32 \<and>
    mem s 0x10020 = 0 \<and> mem s 0x10028 = 0x8000000000000020 \<and>
    mem s 0x10040 = 0x19FF0 \<and> mem s 0x10048 = 40880 \<and>
    mem s 0x19FF0 = 0 \<and> mem s 0x19FF8 = 0 \<and>
    vPortFree example_layout 0x10030 s = Some (Inr s') \<and>
    xBlockSize s' 0x10000 = 40944 \<and> xBlockSize s 0x10000 = 32"
  by (simp add: eval_simps)

theorem vPortFree_frame_witness:
  "(case run example_layout [Malloc 10, Malloc 10, Free 0] (initial_heap, []) of
      Some (Inr (s, ps)) \<Rightarrow>
        valid_layout example_layout \<and>
        list_ok example_layout s [(0x10000, 32), (0x10040, 40880)] \<and>
        alloc_ok example_layout s (0x10020, 32) \<and>
        apart (0x10020, 32) (0x10000, 32) \<and> apart (0x10020, 32) (0x10040, 40880) \<and>
        (case vPortFree example_layout 0x10030 s of
           Some (Inr s') \<Rightarrow>
             insert_position s 0x10020 (xStart example_layout) = Some 0x10000 \<and>
             (\<forall>c. mem s' c \<noteq> mem s c \<longrightarrow>
                inside (0x10020, 32) c \<or> c = 0x10000 \<or> c = 0x10008) \<and>
             xBlockSize s 0x10000 = 32 \<and> xBlockSize s' 0x10000 = 40944 \<and>
             xFreeBytesRemaining s' = xFreeBytesRemaining s + 32 \<and>
             xNumberOfSuccessfulFrees s' = xNumberOfSuccessfulFrees s + 1 \<and>
             xMinimumEverFreeBytesRemaining s' = xMinimumEverFreeBytesRemaining s \<and>
             xNumberOfSuccessfulAllocations s' = xNumberOfSuccessfulAllocations s \<and>
             pxEnd s' = pxEnd s
         | _ \<Rightarrow> False)
    | _ \<Rightarrow> False)"
proof -
  define a :: block where "a = (0x10020, 32)"
  define fl :: "block list" where "fl = [(0x10000, 32), (0x10040, 40880)]"
  from example_two_blocks_cells obtain s s0 where
    r: "run example_layout [Malloc 10, Malloc 10, Free 0] (initial_heap, [])
      = Some (Inr (s, [0x10010, 0x10030]))"
    and c: "pxEnd s = 0x19FF0" "mem s 0x1000 = 0x10000" "mem s 0x1008 = 0"
      "mem s 0x10000 = 0x10040" "mem s 0x10008 = 32"
      "mem s 0x10020 = 0" "mem s 0x10028 = 0x8000000000000020"
      "mem s 0x10040 = 0x19FF0" "mem s 0x10048 = 40880"
      "mem s 0x19FF0 = 0" "mem s 0x19FF8 = 0"
    and f: "vPortFree example_layout 0x10030 s = Some (Inr s0)"
    and z: "xBlockSize s0 0x10000 = 40944" "xBlockSize s 0x10000 = 32"
    by blast
  note v = valid_example_layout
  have x: "xStart example_layout = 0x1000" by (simp add: example_layout_def)
  have ar: "in_arena example_layout (0x10000, 32)" "in_arena example_layout (0x10040, 40880)"
    "in_arena example_layout a"
    by (simp_all add: in_arena_def example_heap_bounds blk_lo_def blk_hi_def aligned_def
        portBYTE_ALIGNMENT_MASK_7 a_def)
  have lo: "list_ok example_layout s fl"
    using ar(1,2)
    by (simp add: list_ok_def fl_def example_heap_bounds x c NULL_def before_def blk_lo_def
        blk_hi_def)
  have al: "alloc_ok example_layout s a"
    using ar(3)
    by (simp add: alloc_ok_def a_def c NULL_def heapBLOCK_ALLOCATED_BITMASK_val)
  have ap: "apart a (0x10000, 32)" "apart a (0x10040, 40880)"
    by (simp_all add: apart_def a_def blk_lo_def blk_hi_def)
  then have ap': "\<forall>b\<in>set fl. apart a b" by (simp add: fl_def)
  from vPortFree_frame [OF v lo al ap'] obtain s' it where
    t: "vPortFree example_layout (fst a + xHeapStructSize) s = Some (Inr s')"
      "insert_position s (fst a) (xStart example_layout) = Some it"
      "\<forall>c. mem s' c \<noteq> mem s c \<longrightarrow> inside a c \<or> c = it \<or> c = it + 8"
      "xFreeBytesRemaining s' = xFreeBytesRemaining s + snd a"
      "xNumberOfSuccessfulFrees s' = xNumberOfSuccessfulFrees s + 1"
      "xMinimumEverFreeBytesRemaining s' = xMinimumEverFreeBytesRemaining s"
      "xNumberOfSuccessfulAllocations s' = xNumberOfSuccessfulAllocations s"
      "pxEnd s' = pxEnd s"
    by blast
  have p: "fst a + xHeapStructSize = 0x10030" by (simp add: a_def xHeapStructSize_16)
  from t(1) f have s': "s' = s0" by (simp add: p)
  have "insert_position s 0x10020 0x1000 = Some 0x10000"
    by (simp add: insert_position_step insert_position_stop pxNextFreeBlock_def c)
  with t(2) have it: "it = 0x10000" by (simp add: a_def x)
  from t(3) have fr: "\<forall>c. mem s0 c \<noteq> mem s c \<longrightarrow>
      inside (0x10020, 32) c \<or> c = 0x10000 \<or> c = 0x10008"
    by (simp add: s' it a_def)
  from t(2) have pos: "insert_position s 0x10020 (xStart example_layout) = Some 0x10000"
    by (simp add: it a_def)
  from t(4-8) have cn: "xFreeBytesRemaining s0 = xFreeBytesRemaining s + 32"
    "xNumberOfSuccessfulFrees s0 = xNumberOfSuccessfulFrees s + 1"
    "xMinimumEverFreeBytesRemaining s0 = xMinimumEverFreeBytesRemaining s"
    "xNumberOfSuccessfulAllocations s0 = xNumberOfSuccessfulAllocations s"
    "pxEnd s0 = pxEnd s"
    by (simp_all add: s' a_def)
  from v lo al ap fr pos z cn show ?thesis
    unfolding r by (simp add: f a_def fl_def)
qed

section \<open>Releasing a pointer twice\<close>

text \<open>
  On a heap whose free list is well formed the second of two \<open>vPortFree\<close> calls with the
  same pointer to an allocated block stops in the first assertion: the first call clears
  the allocation flag of the block, and no insertion sets it again.
\<close>

lemma double_free_detected:
  assumes "valid_layout L" and "list_ok L s fl" and "alloc_ok L s a"
    and "\<forall>b\<in>set fl. apart a b"
  shows "\<exists>s'. vPortFree L (fst a + xHeapStructSize) s = Some (Inr s') \<and>
      vPortFree L (fst a + xHeapStructSize) s' = Some (Inl AssertionFailed)"
proof -
  from free_valid [OF assms] obtain s' where
    f: "vPortFree L (fst a + xHeapStructSize) s = Some (Inr s')"
    and n: "\<not> flagged (mem s' (fst a + 8))"
    by blast
  from assms(3) have A: "in_arena L a" by (simp add: alloc_ok_def)
  have "fst a + xHeapStructSize \<noteq> NULL"
  proof
    assume "fst a + xHeapStructSize = NULL"
    then have "unat (fst a + 16) = 0" by (simp add: xHeapStructSize_16 NULL_def)
    with block_unat(3) [OF assms(1) A] show False by simp
  qed
  moreover from n have "\<not> heapBLOCK_IS_ALLOCATED s' (fst a + xHeapStructSize - xHeapStructSize)"
    by (simp add: heapBLOCK_IS_ALLOCATED_def flagged_def xBlockSize_def)
  ultimately have "vPortFree L (fst a + xHeapStructSize) s' = Some (Inl AssertionFailed)"
    by (simp add: vPortFree_def Let_def)
  with f show ?thesis by blast
qed

lemma example_double_free:
  "run example_layout [Malloc 10, Malloc 10, Free 0, Free 0] (initial_heap, [])
     = Some (Inl AssertionFailed)"
  by (simp add: eval_simps)

text \<open>
  Claim C7 asks that releasing a pointer twice always stops in an assertion.  After a
  request that wraps around (claim C1) it need not.  \<open>pvPortMalloc( 2^64 - 1 )\<close> on the
  fresh arena of the example layout returns \<open>0x10010\<close> for a block of 16 bytes, all of it
  header, at \<open>0x10000\<close>; the first 16 bytes of the region the client asked for are the
  header of the free block behind it.  The client stores 0 in the first word of its
  region, the link of that block, and \<open>2^63\<close> in the second, its size.

  The first \<open>vPortFree( 0x10010 )\<close> merges the released block with that free block: its
  size field becomes \<open>16 + 2^63\<close>, which has the allocation flag set, and its link
  becomes \<open>NULL\<close>.  The second \<open>vPortFree( 0x10010 )\<close> therefore passes both
  assertions and returns: it raises the free-byte counter to 40960, above the 40944 usable
  bytes, counts a second successful free, and links the block at \<open>0x10000\<close> to itself.
\<close>

theorem wrapped_request_hides_double_free:
  "xFreeBytesRemaining (prvHeapInit example_layout initial_heap) = 40944 \<and>
   (case pvPortMalloc example_layout 0xFFFFFFFFFFFFFFFF initial_heap of
      Some (p, s1) \<Rightarrow>
        p = 0x10010 \<and>
        (case vPortFree example_layout p
                (client_store (p + 8) 0x8000000000000000 (client_store p 0 s1)) of
           Some (Inr s2) \<Rightarrow>
             xFreeBytesRemaining s2 = 40944 \<and> xNumberOfSuccessfulFrees s2 = 1 \<and>
             xBlockSize s2 0x10000 = 0x8000000000000010 \<and>
             pxNextFreeBlock s2 0x10000 = NULL \<and>
             (case vPortFree example_layout p s2 of
                Some (Inr s3) \<Rightarrow>
                  xFreeBytesRemaining s3 = 40960 \<and> xNumberOfSuccessfulFrees s3 = 2 \<and>
                  pxNextFreeBlock s3 (xStart example_layout) = 0x10000 \<and>
                  pxNextFreeBlock s3 0x10000 = 0x10000
              | _ \<Rightarrow> False)
         | _ \<Rightarrow> False)
    | None \<Rightarrow> False)"
  by (simp add: eval_simps client_store_def)

section \<open>Requests that wrap around\<close>

text \<open>
  The size computation of \<open>pvPortMalloc\<close> is unguarded (claim C1).  Requests of
  \<open>2^64 - 15\<close> to \<open>2^64 - 8\<close> bytes wrap to a block size of 8, half a header: the header
  of the remainder then overlaps the header of the allocated block, and inserting the
  remainder overwrites the size of the allocated block with a list pointer.  The three
  theorems below evaluate the calls on the fresh arena of the example layout.
\<close>

text \<open>
  Claim C2 asks that free bytes plus the sizes of the allocated blocks always equal the
  usable arena size, 40944 here.  After a request of \<open>2^64 - 15\<close> bytes and one of 1 byte,
  both successful, the free-byte counter is \<open>2^64 - 65560\<close>, the first block's size
  field reads 0 and the second's 24: the sum is not 40944, neither as a number nor
  modulo \<open>2^64\<close>.
\<close>

theorem wrapped_request_breaks_conservation:
  "(case run example_layout [Malloc 0xFFFFFFFFFFFFFFF1, Malloc 1] (initial_heap, []) of
      Some (Inr (s, ps)) \<Rightarrow>
        ps = [0x10010, 0x10018] \<and>
        xFreeBytesRemaining s = 0xFFFFFFFFFFFEFFE8 \<and>
        xBlockSize s (0x10010 - xHeapStructSize) AND NOT heapBLOCK_ALLOCATED_BITMASK = 0 \<and>
        xBlockSize s (0x10018 - xHeapStructSize) AND NOT heapBLOCK_ALLOCATED_BITMASK = 24 \<and>
        xFreeBytesRemaining (prvHeapInit example_layout initial_heap) = 40944 \<and>
        xFreeBytesRemaining s + 0 + 24 \<noteq> 40944 \<and>
        unat (xFreeBytesRemaining s) + 0 + 24 \<noteq> 40944
    | _ \<Rightarrow> False)"
  by (simp add: eval_simps)

text \<open>
  Claim C4 asks that the free list is ordered and ends in the end sentinel after every
  call.  After a request of \<open>2^64 - 15\<close> bytes the list runs from \<open>xStart\<close> to the block
  at \<open>0x10008\<close>, whose link is the address of \<open>pxEnd\<close> with the allocation flag set in
  it, an address outside the arena whose own link is \<open>NULL\<close>: the end sentinel at
  \<open>0x19FF0\<close> is no longer on the list.
\<close>

theorem wrapped_request_breaks_free_list:
  "(case pvPortMalloc example_layout 0xFFFFFFFFFFFFFFF1 initial_heap of
      Some (p, s) \<Rightarrow>
        p = 0x10010 \<and> pxEnd s = 0x19FF0 \<and>
        pxNextFreeBlock s (xStart example_layout) = 0x10008 \<and>
        pxNextFreeBlock s 0x10008 = 0x8000000000019FF0 \<and>
        pxNextFreeBlock s 0x8000000000019FF0 = NULL
    | None \<Rightarrow> False)"
  by (simp add: eval_simps)

text \<open>
  Claim C3 asks that after allocating A, B and C and releasing B and then A the two form
  one free block.  With a request of \<open>2^64 - 15\<close> bytes for A and 1 byte each for B and C
  all three calls return a pointer, but B's header lies inside A's header, and releasing A
  after B stops in the assertion of \<open>vPortFree\<close>.
\<close>

theorem wrapped_request_breaks_coalescing:
  "(case run example_layout [Malloc 0xFFFFFFFFFFFFFFF1, Malloc 1, Malloc 1] (initial_heap, []) of
      Some (Inr (s, ps)) \<Rightarrow> ps = [0x10010, 0x10018, 0x10030]
    | _ \<Rightarrow> False) \<and>
   run example_layout [Malloc 0xFFFFFFFFFFFFFFF1, Malloc 1, Malloc 1, Free 1, Free 0]
     (initial_heap, []) = Some (Inl AssertionFailed)"
  by (simp add: eval_simps)

end
